theory Spec2Isabelle
  imports Complex_Main
begin

section \<open>Numbers, landmarks and hands\<close>

text \<open>
  A JavaScript number is modelled as the real number it denotes. The cell mapping
  rounds every operation to binary64, as the source does; the other functions read the
  arithmetic of the source as exact arithmetic. A landmark is the object
  \<^verbatim>\<open>{x, y, z}\<close> of the detector.
\<close>

datatype landmark = Landmark (lm_x: real) (lm_y: real) (lm_z: real)

text \<open>
  One entry of the array returned by \<^verbatim>\<open>HandTracker.detectHands\<close>: the smoothed
  landmarks and the world landmarks (\<^verbatim>\<open>result.worldLandmarks?.[index] || null\<close>).
\<close>

record hand =
  landmarks :: "landmark list"
  worldLandmarks :: "landmark list option"

datatype gesture_type = NONE | OPEN | PINCH | FIST | PEACE | THUMBS_UP | POINTING | ROCK

text \<open>What \<^verbatim>\<open>recognize\<close> hands to the grid controller: the emitted type and the palm centre.\<close>

record gesture =
  gtype :: gesture_type
  palmCenter :: landmark

datatype error = TypeError

section \<open>Binary64 arithmetic\<close>

text \<open>
  Rounding to the nearest integer, ties to the even one.
\<close>

definition roundEven :: "real \<Rightarrow> int" where
  "roundEven r =
     (let f = \<lfloor>r\<rfloor>; d = r - of_int f
      in if d < 1/2 then f else if 1/2 < d then f + 1 else if even f then f else f + 1)"

text \<open>
  The exponent of the binade of a number (subnormal numbers share the exponent -1022),
  the spacing of the binary64 numbers in that binade (53 significant bits), and the
  rounding of a real number to the nearest binary64 number, ties to even. Overflow to
  an infinity is not modelled: the rounded value stays finite.
\<close>

definition binade :: "real \<Rightarrow> int" where
  "binade v = max \<lfloor>log 2 \<bar>v\<bar>\<rfloor> (- 1022)"

definition ulp64 :: "real \<Rightarrow> real" where
  "ulp64 v = 2 powr of_int (binade v - 52)"

definition rnd64 :: "real \<Rightarrow> real" where
  "rnd64 v = (if v = 0 then 0 else ulp64 v * of_int (roundEven (v / ulp64 v)))"

text \<open>The finite binary64 numbers, and the subtraction and multiplication on them.\<close>

definition isDouble :: "real \<Rightarrow> bool" where
  "isDouble v = (rnd64 v = v \<and> \<bar>v\<bar> < 2 ^ 1024)"

definition dsub :: "real \<Rightarrow> real \<Rightarrow> real" where
  "dsub a b = rnd64 (a - b)"

definition dmul :: "real \<Rightarrow> real \<Rightarrow> real" where
  "dmul a b = rnd64 (a * b)"

section \<open>Grid cells (main.js, getCellIndex)\<close>

text \<open>
  \<^verbatim>\<open>getCellIndex\<close> with its two roundings on the column path and one on the row path.
  \<^verbatim>\<open>Math.floor\<close> and \<^verbatim>\<open>row * 3 + col\<close> are exact. Where a product overflows in the
  source, the model has a finite value of the same sign, which fails the range check
  as the infinity does.
\<close>

definition gridCols :: int where "gridCols = 3"
definition gridRows :: int where "gridRows = 3"

definition getCellIndex :: "real \<Rightarrow> real \<Rightarrow> int" where
  "getCellIndex x y =
     (let flippedX = dsub 1 x;
          col = \<lfloor>dmul flippedX (of_int gridCols)\<rfloor>;
          row = \<lfloor>dmul y (of_int gridRows)\<rfloor>
      in if col < 0 \<or> col \<ge> gridCols \<or> row < 0 \<or> row \<ge> gridRows then - 1
         else row * gridCols + col)"

section \<open>Palm orientation (main.js, getPalmAngle and getPalmNormalZ)\<close>

text \<open>\<^verbatim>\<open>Math.atan2(y, x)\<close> on real arguments, with \<^verbatim>\<open>atan2(0, 0) = 0\<close>.\<close>

definition atan2 :: "real \<Rightarrow> real \<Rightarrow> real" where
  "atan2 y x =
     (if 0 < x then arctan (y / x)
      else if x < 0 \<and> 0 \<le> y then arctan (y / x) + pi
      else if x < 0 then arctan (y / x) - pi
      else if 0 < y then pi / 2
      else if y < 0 then - (pi / 2)
      else 0)"

definition getPalmAngle :: "landmark list \<Rightarrow> real" where
  "getPalmAngle lms =
     (if length lms < 10 then 0
      else let wrist = lms ! 0; middleMcp = lms ! 9
           in atan2 (lm_y middleMcp - lm_y wrist) (lm_x middleMcp - lm_x wrist))"

definition getPalmNormalZ :: "landmark list \<Rightarrow> real option" where
  "getPalmNormalZ wl =
     (if length wl < 18 then None
      else let wrist = wl ! 0; indexMcp = wl ! 5; pinkyMcp = wl ! 17;
               ax = lm_x indexMcp - lm_x wrist;
               ay = lm_y indexMcp - lm_y wrist;
               bx = lm_x pinkyMcp - lm_x wrist;
               by' = lm_y pinkyMcp - lm_y wrist
           in Some (ax * by' - ay * bx))"

section \<open>The grid controller (main.js, HandGridController)\<close>

text \<open>
  The controller with flip tracking (the first of the two variants of main.js). Grid
  objects are DOM elements; an element is identified by the order of its creation. A
  held object is the record stored in \<^verbatim>\<open>heldObjects[handIndex]\<close>.
\<close>

type_synonym element = nat

record held_object =
  element :: element
  fromCellIndex :: int
  grabAngle :: real
  grabNormalZ :: "real option"
  grabWasBack :: bool
  isBack :: bool

text \<open>
  The controller's state: \<^verbatim>\<open>cellObjects\<close> (cell index to the array of elements resting
  there, last pushed on top), \<^verbatim>\<open>heldObjects\<close> (hand index to held object), and the set
  of elements whose inner node carries the class \<^verbatim>\<open>flipped\<close>.
\<close>

record controller =
  cellObjects :: "int \<rightharpoonup> element list"
  heldObjects :: "nat \<rightharpoonup> held_object"
  flipped :: "element set"

text \<open>The nine \<^verbatim>\<open>.grid-cell\<close> nodes of the page: \<^verbatim>\<open>gridCells[i]\<close> exists for \<open>0 \<le> i < 9\<close>.\<close>

definition gridCellCount :: int where "gridCellCount = 9"

definition emptyController :: controller where
  "emptyController = \<lparr>cellObjects = Map.empty, heldObjects = Map.empty, flipped = {}\<rparr>"

text \<open>
  \<^verbatim>\<open>createGridObjects(cellIndices)\<close>: one new element per listed cell, stored as the
  one-element array of that cell. The first argument is the number of elements created
  so far.
\<close>

fun createGridObjects :: "nat \<Rightarrow> controller \<Rightarrow> int list \<Rightarrow> controller" where
  "createGridObjects n s [] = s"
| "createGridObjects n s (cellIndex # rest) =
     createGridObjects (Suc n) (s\<lparr>cellObjects := (cellObjects s)(cellIndex \<mapsto> [n])\<rparr>) rest"

text \<open>\<^verbatim>\<open>start()\<close> places one object in cell 0 and one in cell 4.\<close>

definition initialController :: controller where
  "initialController = createGridObjects 0 emptyController [0, 4]"

definition objects :: "element set" where
  "objects = {0, 1}"

definition grabObject :: "controller \<Rightarrow> nat \<Rightarrow> int \<Rightarrow> hand \<Rightarrow> controller" where
  "grabObject s handIndex cellIndex hnd =
     (case cellObjects s cellIndex of
        None \<Rightarrow> s
      | Some arr \<Rightarrow>
          if arr = [] then s
          else
            let el = last arr;
                arr' = butlast arr;
                cells' = (if arr' = [] then (cellObjects s)(cellIndex := None)
                          else (cellObjects s)(cellIndex \<mapsto> arr'));
                angle = getPalmAngle (landmarks hnd);
                normalZ = (case worldLandmarks hnd of None \<Rightarrow> None
                           | Some wl \<Rightarrow> getPalmNormalZ wl);
                wasBack = (el \<in> flipped s)
            in s\<lparr>cellObjects := cells',
                 heldObjects := (heldObjects s)(handIndex \<mapsto>
                   \<lparr>element = el, fromCellIndex = cellIndex, grabAngle = angle,
                    grabNormalZ = normalZ, grabWasBack = wasBack, isBack = wasBack\<rparr>)\<rparr>)"

text \<open>
  \<^verbatim>\<open>dropObject\<close> reads \<^verbatim>\<open>this.gridCells[cellIndex].appendChild\<close>, which throws a
  TypeError when the cell index names no grid cell.
\<close>

definition dropObject :: "controller \<Rightarrow> nat \<Rightarrow> int \<Rightarrow> error + controller" where
  "dropObject s handIndex cellIndex =
     (case heldObjects s handIndex of
        None \<Rightarrow> Inr s
      | Some held \<Rightarrow>
          if cellIndex < 0 \<or> gridCellCount \<le> cellIndex then Inl TypeError
          else
            let arr = (case cellObjects s cellIndex of None \<Rightarrow> [] | Some a \<Rightarrow> a)
            in Inr (s\<lparr>cellObjects := (cellObjects s)(cellIndex \<mapsto> arr @ [element held]),
                      heldObjects := (heldObjects s)(handIndex := None)\<rparr>))"

text \<open>
  The body of the loop of \<^verbatim>\<open>processHands\<close> for one hand, given the gesture that
  \<^verbatim>\<open>recognize\<close> returned for it in this frame.
\<close>

definition processHand :: "controller \<Rightarrow> nat \<Rightarrow> hand \<Rightarrow> gesture \<Rightarrow> error + controller" where
  "processHand s handIndex hnd g =
     (let cellIndex = getCellIndex (lm_x (palmCenter g)) (lm_y (palmCenter g));
          s1 = (if gtype g = FIST then
                  (case cellObjects s cellIndex of
                     None \<Rightarrow> s
                   | Some arr \<Rightarrow>
                       if heldObjects s handIndex = None \<and> 0 \<le> cellIndex \<and> 0 < length arr
                       then grabObject s handIndex cellIndex hnd else s)
                else s)
      in if gtype g = OPEN then
           (if heldObjects s1 handIndex \<noteq> None \<and> 0 \<le> cellIndex \<and> cellIndex < 9
            then dropObject s1 handIndex cellIndex else Inr s1)
         else Inr s1)"

text \<open>
  \<^verbatim>\<open>processHands(hands)\<close>: the loop body for every hand of the frame in turn, from hand
  index \<open>i\<close> on; each hand comes with the gesture recognized for it.
\<close>

fun processHandsFrom :: "controller \<Rightarrow> nat \<Rightarrow> (hand \<times> gesture) list \<Rightarrow> error + controller" where
  "processHandsFrom s i [] = Inr s"
| "processHandsFrom s i ((hnd, g) # rest) =
     (case processHand s i hnd g of
        Inl e \<Rightarrow> Inl e
      | Inr s' \<Rightarrow> processHandsFrom s' (Suc i) rest)"

definition processHands :: "controller \<Rightarrow> (hand \<times> gesture) list \<Rightarrow> error + controller" where
  "processHands s hands = processHandsFrom s 0 hands"

text \<open>The two \<^verbatim>\<open>while\<close> loops that bring an angle difference back into \<open>[-\<pi>, \<pi>]\<close>.\<close>

function wrapDown :: "real \<Rightarrow> real" where
  "wrapDown d = (if pi < d then wrapDown (d - 2 * pi) else d)"
  by pat_completeness auto
termination
proof (relation "measure (\<lambda>d. nat \<lceil>(d - pi) / (2 * pi)\<rceil>)")
  show "wf (measure (\<lambda>d. nat \<lceil>(d - pi) / (2 * pi)\<rceil>))" by simp
next
  fix d :: real
  assume lt: "pi < d"
  have eq: "(d - 2 * pi - pi) / (2 * pi) = (d - pi) / (2 * pi) - 1"
    by (simp add: field_simps)
  have pos: "0 < (d - pi) / (2 * pi)" using lt by simp
  then have cpos: "0 < \<lceil>(d - pi) / (2 * pi)\<rceil>" by simp
  have "\<lceil>(d - 2 * pi - pi) / (2 * pi)\<rceil> = \<lceil>(d - pi) / (2 * pi)\<rceil> - 1"
    by (simp only: eq ceiling_diff_one)
  with cpos have "nat \<lceil>(d - 2 * pi - pi) / (2 * pi)\<rceil> < nat \<lceil>(d - pi) / (2 * pi)\<rceil>"
    by linarith
  then show "(d - 2 * pi, d) \<in> measure (\<lambda>d. nat \<lceil>(d - pi) / (2 * pi)\<rceil>)"
    by (simp only: in_measure)
qed

function wrapUp :: "real \<Rightarrow> real" where
  "wrapUp d = (if d < - pi then wrapUp (d + 2 * pi) else d)"
  by pat_completeness auto
termination
proof (relation "measure (\<lambda>d. nat \<lceil>(- pi - d) / (2 * pi)\<rceil>)")
  show "wf (measure (\<lambda>d. nat \<lceil>(- pi - d) / (2 * pi)\<rceil>))" by simp
next
  fix d :: real
  assume lt: "d < - pi"
  have eq: "(- pi - (d + 2 * pi)) / (2 * pi) = (- pi - d) / (2 * pi) - 1"
    by (simp add: field_simps)
  have pos: "0 < (- pi - d) / (2 * pi)" using lt by simp
  then have cpos: "0 < \<lceil>(- pi - d) / (2 * pi)\<rceil>" by simp
  have "\<lceil>(- pi - (d + 2 * pi)) / (2 * pi)\<rceil> = \<lceil>(- pi - d) / (2 * pi)\<rceil> - 1"
    by (simp only: eq ceiling_diff_one)
  with cpos have "nat \<lceil>(- pi - (d + 2 * pi)) / (2 * pi)\<rceil> < nat \<lceil>(- pi - d) / (2 * pi)\<rceil>"
    by linarith
  then show "(d + 2 * pi, d) \<in> measure (\<lambda>d. nat \<lceil>(- pi - d) / (2 * pi)\<rceil>)"
    by (simp only: in_measure)
qed

declare wrapDown.simps [simp del] wrapUp.simps [simp del]

definition wrapAngle :: "real \<Rightarrow> real" where
  "wrapAngle d = wrapUp (wrapDown d)"

text \<open>
  The value of the local \<^verbatim>\<open>isBack\<close> that \<^verbatim>\<open>updateHeldObjectFlip\<close> computes for a held
  object and the hand of this frame.
\<close>

definition computeIsBack :: "held_object \<Rightarrow> hand \<Rightarrow> bool" where
  "computeIsBack held hnd =
     (let isBack0 = False;
          wasBack = grabWasBack held;
          isBack1 =
            (case (worldLandmarks hnd, grabNormalZ held) of
               (Some wl, Some grabZ) \<Rightarrow>
                 (case getPalmNormalZ wl of
                    Some currentNormalZ \<Rightarrow>
                      let handFlipped = (currentNormalZ * grabZ < 0)
                      in handFlipped \<noteq> wasBack
                  | None \<Rightarrow> isBack0)
             | _ \<Rightarrow> isBack0)
      in if grabNormalZ held = None then
           let currentAngle = getPalmAngle (landmarks hnd);
               diff = wrapAngle (currentAngle - grabAngle held);
               handRotated = (pi / 6 < \<bar>diff\<bar>)
           in handRotated \<noteq> wasBack
         else isBack1)"

definition updateHeldObjectFlip :: "controller \<Rightarrow> nat \<Rightarrow> hand \<Rightarrow> controller" where
  "updateHeldObjectFlip s handIndex hnd =
     (case heldObjects s handIndex of
        None \<Rightarrow> s
      | Some held \<Rightarrow>
          let b = computeIsBack held hnd
          in if b \<noteq> isBack held then
               s\<lparr>heldObjects := (heldObjects s)(handIndex \<mapsto> held\<lparr>isBack := b\<rparr>),
                 flipped := (if b then insert (element held) (flipped s)
                             else flipped s - {element held})\<rparr>
             else s)"

section \<open>Ownership of grid objects\<close>

text \<open>An element rests in a cell when it occurs in the array of that cell; a hand slot
  holds an element when its entry of \<^verbatim>\<open>heldObjects\<close> carries it.\<close>

definition inCell :: "controller \<Rightarrow> int \<Rightarrow> element \<Rightarrow> bool" where
  "inCell s c e = (case cellObjects s c of None \<Rightarrow> False | Some arr \<Rightarrow> e \<in> set arr)"

definition heldBy :: "controller \<Rightarrow> nat \<Rightarrow> element \<Rightarrow> bool" where
  "heldBy s h e = (case heldObjects s h of None \<Rightarrow> False | Some r \<Rightarrow> element r = e)"

text \<open>Every stored array belongs to one of the nine cells, is non-empty (an emptied array
  is deleted) and lists no element twice.\<close>

definition cellsWellFormed :: "controller \<Rightarrow> bool" where
  "cellsWellFormed s =
     (\<forall>c arr. cellObjects s c = Some arr \<longrightarrow> 0 \<le> c \<and> c < 9 \<and> arr \<noteq> [] \<and> distinct arr)"

text \<open>The inductive form of the ownership invariant.\<close>

definition ownership :: "controller \<Rightarrow> bool" where
  "ownership s =
     ((\<forall>c1 c2 e. inCell s c1 e \<and> inCell s c2 e \<longrightarrow> c1 = c2) \<and>
      (\<forall>h1 h2 e. heldBy s h1 e \<and> heldBy s h2 e \<longrightarrow> h1 = h2) \<and>
      (\<forall>c h e. inCell s c e \<longrightarrow> \<not> heldBy s h e) \<and>
      (\<forall>e. e \<in> objects \<longleftrightarrow> (\<exists>c. inCell s c e) \<or> (\<exists>h. heldBy s h e)))"

text \<open>The ownership invariant as the specification words it.\<close>

definition ownershipInvariant :: "controller \<Rightarrow> bool" where
  "ownershipInvariant s =
     ((\<forall>e\<in>objects.
         ((\<exists>!c. inCell s c e) \<and> \<not> (\<exists>h. heldBy s h e)) \<or>
         ((\<exists>!h. heldBy s h e) \<and> \<not> (\<exists>c. inCell s c e))) \<and>
      (\<forall>c arr. cellObjects s c = Some arr \<longrightarrow> distinct arr) \<and>
      (\<forall>h e1 e2. heldBy s h e1 \<and> heldBy s h e2 \<longrightarrow> e1 = e2) \<and>
      (\<forall>c h e. heldBy s h e \<longrightarrow> \<not> inCell s c e))"

text \<open>
  The states the controller reaches: the initial placement, then per frame and hand
  one pass of the loop body of \<^verbatim>\<open>processHands\<close> and one call of
  \<^verbatim>\<open>updateHeldObjectFlip\<close>, for any hand and any gesture.
\<close>

inductive reachable :: "controller \<Rightarrow> bool" where
  start: "reachable initialController"
| frame: "reachable s \<Longrightarrow> processHand s handIndex hnd g = Inr s' \<Longrightarrow> reachable s'"
| flip: "reachable s \<Longrightarrow> reachable (updateHeldObjectFlip s handIndex hnd)"

text \<open>The local \<^verbatim>\<open>cellIndex\<close> of \<^verbatim>\<open>processHands\<close>.\<close>

abbreviation cellOf :: "gesture \<Rightarrow> int" where
  "cellOf g \<equiv> getCellIndex (lm_x (palmCenter g)) (lm_y (palmCenter g))"

text \<open>Concrete inputs for the instances below.\<close>

definition sampleHand :: hand where
  "sampleHand = \<lparr>landmarks = replicate 21 (Landmark (9/10) (1/10) 0), worldLandmarks = None\<rparr>"

definition fistAt :: "real \<Rightarrow> real \<Rightarrow> gesture" where
  "fistAt x y = \<lparr>gtype = FIST, palmCenter = Landmark x y 0\<rparr>"

definition openAt :: "real \<Rightarrow> real \<Rightarrow> gesture" where
  "openAt x y = \<lparr>gtype = OPEN, palmCenter = Landmark x y 0\<rparr>"

section \<open>Display of the flip state\<close>

text \<open>The recorded \<^verbatim>\<open>isBack\<close> of every held object agrees with the class shown on
  its element.\<close>

definition displayConsistent :: "controller \<Rightarrow> bool" where
  "displayConsistent s =
     (\<forall>h r. heldObjects s h = Some r \<longrightarrow> (isBack r \<longleftrightarrow> element r \<in> flipped s))"

text \<open>A landmark array of 21 points, of which only the wrist (0), the index MCP (5), the
  middle MCP (9) and the pinky MCP (17) differ from the wrist; used for concrete
  instances.\<close>

definition handPose :: "landmark \<Rightarrow> landmark \<Rightarrow> landmark \<Rightarrow> landmark \<Rightarrow> landmark list" where
  "handPose wrist indexMcp middleMcp pinkyMcp =
     [wrist, wrist, wrist, wrist, wrist, indexMcp, wrist, wrist, wrist, middleMcp, wrist,
      wrist, wrist, wrist, wrist, wrist, wrist, pinkyMcp, wrist, wrist, wrist]"

definition palmUp :: "landmark list" where
  "palmUp = handPose (Landmark 0 0 0) (Landmark 1 0 0) (Landmark 1 0 0) (Landmark 0 1 0)"

definition palmDown :: "landmark list" where
  "palmDown = handPose (Landmark 0 0 0) (Landmark 1 0 0) (Landmark 1 0 0) (Landmark 0 (- 1) 0)"

definition palmTurned :: "landmark list" where
  "palmTurned = handPose (Landmark 0 0 0) (Landmark 1 0 0) (Landmark 0 1 0) (Landmark 0 1 0)"

text \<open>The record that a grab stores when the hand has no world landmarks.\<close>

definition grabbedWithoutWorld :: held_object where
  "grabbedWithoutWorld =
     \<lparr>element = 0, fromCellIndex = 0, grabAngle = 0, grabNormalZ = None,
      grabWasBack = False, isBack = False\<rparr>"

section \<open>The gesture recognizer (gestures.js, GestureRecognizer)\<close>

text \<open>The object \<^verbatim>\<open>{ type, confidence }\<close> that \<^verbatim>\<open>classifyGesture\<close> returns.\<close>

record classified =
  ctype :: gesture_type
  confidence :: real

record fingerStates =
  thumb :: bool
  index :: bool
  middle :: bool
  ring :: bool
  pinky :: bool
  extendedCount :: nat

text \<open>
  The recognizer's state across frames: \<^verbatim>\<open>prevGestures\<close> (hand index to the last raw
  classification) and \<^verbatim>\<open>gestureHistory\<close> (hand index to the last raw types).
\<close>

record recognizer =
  prevGestures :: "nat \<rightharpoonup> classified"
  gestureHistory :: "nat \<rightharpoonup> gesture_type list"

definition newRecognizer :: recognizer where
  "newRecognizer = \<lparr>prevGestures = Map.empty, gestureHistory = Map.empty\<rparr>"

definition pinchStartThreshold :: real where "pinchStartThreshold = 0.06"

definition pinchEndThreshold :: real where "pinchEndThreshold = 0.10"

definition historySize :: nat where "historySize = 3"

definition distance2D :: "landmark \<Rightarrow> landmark \<Rightarrow> real" where
  "distance2D p1 p2 =
     (let dx = lm_x p2 - lm_x p1; dy = lm_y p2 - lm_y p1 in sqrt (dx * dx + dy * dy))"

definition isThumbExtended :: "landmark list \<Rightarrow> bool" where
  "isThumbExtended lms =
     (let thumbTip = lms ! 4; thumbMCP = lms ! 2; indexMCP = lms ! 5;
          tipToIndex = distance2D thumbTip indexMCP;
          mcpToIndex = distance2D thumbMCP indexMCP
      in mcpToIndex * 0.8 < tipToIndex)"

text \<open>\<^verbatim>\<open>isFingerExtended\<close>, given the tip and PIP indices of the finger.\<close>

definition isFingerExtended :: "landmark list \<Rightarrow> nat \<Rightarrow> nat \<Rightarrow> bool" where
  "isFingerExtended lms tip pip =
     (let wrist = lms ! 0;
          tipToWrist = distance2D (lms ! tip) wrist;
          pipToWrist = distance2D (lms ! pip) wrist
      in pipToWrist * 1.1 < tipToWrist)"

definition getFingerStates :: "landmark list \<Rightarrow> fingerStates" where
  "getFingerStates lms =
     (let t = isThumbExtended lms;
          i = isFingerExtended lms 8 6;
          m = isFingerExtended lms 12 10;
          r = isFingerExtended lms 16 14;
          p = isFingerExtended lms 20 18
      in \<lparr>thumb = t, index = i, middle = m, ring = r, pinky = p,
          extendedCount = length (filter (\<lambda>v. v) [t, i, m, r, p])\<rparr>)"

definition getPinchDistance :: "landmark list \<Rightarrow> real" where
  "getPinchDistance lms = distance2D (lms ! 4) (lms ! 8)"

definition getPalmCenter :: "landmark list \<Rightarrow> landmark" where
  "getPalmCenter lms =
     (let points = [lms ! 0, lms ! 5, lms ! 9, lms ! 13, lms ! 17]
      in Landmark (sum_list (map lm_x points) / real (length points))
                  (sum_list (map lm_y points) / real (length points))
                  (sum_list (map lm_z points) / real (length points)))"

definition classifyGesture :: "recognizer \<Rightarrow> fingerStates \<Rightarrow> real \<Rightarrow> nat \<Rightarrow> classified" where
  "classifyGesture rec fs pinchDistance handIndex =
     (if extendedCount fs \<le> 1 then \<lparr>ctype = FIST, confidence = 0.9\<rparr>
      else
        let wasPinching = (case prevGestures rec handIndex of
                             None \<Rightarrow> False | Some g \<Rightarrow> ctype g = PINCH);
            isPinching = (if wasPinching then pinchDistance < pinchEndThreshold
                          else pinchDistance < pinchStartThreshold)
        in if isPinching then \<lparr>ctype = PINCH, confidence = 0.9\<rparr>
           else if 4 \<le> extendedCount fs then \<lparr>ctype = OPEN, confidence = 0.9\<rparr>
           else if index fs \<and> middle fs \<and> \<not> ring fs \<and> \<not> pinky fs
             then \<lparr>ctype = PEACE, confidence = 0.85\<rparr>
           else if thumb fs \<and> \<not> index fs \<and> \<not> middle fs \<and> \<not> ring fs \<and> \<not> pinky fs
             then \<lparr>ctype = THUMBS_UP, confidence = 0.8\<rparr>
           else if \<not> thumb fs \<and> index fs \<and> \<not> middle fs \<and> \<not> ring fs \<and> \<not> pinky fs
             then \<lparr>ctype = POINTING, confidence = 0.8\<rparr>
           else if index fs \<and> \<not> middle fs \<and> \<not> ring fs \<and> pinky fs
             then \<lparr>ctype = ROCK, confidence = 0.8\<rparr>
           else \<lparr>ctype = NONE, confidence = 0.5\<rparr>)"

text \<open>
  The object \<^verbatim>\<open>counts\<close> of \<^verbatim>\<open>applyHysteresis\<close>, with its keys in insertion order (the
  order in which \<^verbatim>\<open>Object.entries\<close> lists them), and the statement
  \<^verbatim>\<open>counts[type] = (counts[type] || 0) + 1\<close>.
\<close>

fun countsAdd :: "(gesture_type \<times> nat) list \<Rightarrow> gesture_type \<Rightarrow> (gesture_type \<times> nat) list" where
  "countsAdd [] t = [(t, 1)]"
| "countsAdd ((k, c) # rest) t =
     (if k = t then (k, c + 1) # rest else (k, c) # countsAdd rest t)"

text \<open>The loop that keeps the first entry of strictly greatest count.\<close>

fun maxEntry :: "nat \<times> gesture_type \<Rightarrow> (gesture_type \<times> nat) list \<Rightarrow> nat \<times> gesture_type" where
  "maxEntry (maxCount, stableType) [] = (maxCount, stableType)"
| "maxEntry (maxCount, stableType) ((t, count) # rest) =
     (if maxCount < count then maxEntry (count, t) rest
      else maxEntry (maxCount, stableType) rest)"

definition applyHysteresis :: "recognizer \<Rightarrow> classified \<Rightarrow> nat \<Rightarrow> recognizer \<times> classified" where
  "applyHysteresis rec g handIndex =
     (let history0 = (case gestureHistory rec handIndex of None \<Rightarrow> [] | Some h \<Rightarrow> h);
          history1 = history0 @ [ctype g];
          history = (if historySize < length history1 then tl history1 else history1);
          counts = foldl countsAdd [] history;
          (maxCount, stableType) = maxEntry (0, ctype g) counts;
          rec' = rec\<lparr>gestureHistory := (gestureHistory rec)(handIndex \<mapsto> history),
                    prevGestures := (prevGestures rec)(handIndex \<mapsto> g)\<rparr>
      in if nat \<lceil>real historySize / 2\<rceil> \<le> maxCount then (rec', g\<lparr>ctype := stableType\<rparr>)
         else (rec', g))"

text \<open>
  \<^verbatim>\<open>recognize\<close>: the raw classification of the landmarks, then the hysteresis. With
  fewer than 21 landmarks it returns type NONE with confidence 0 and touches no state.
\<close>

definition rawClassification :: "recognizer \<Rightarrow> landmark list \<Rightarrow> nat \<Rightarrow> classified" where
  "rawClassification rec lms handIndex =
     classifyGesture rec (getFingerStates lms) (getPinchDistance lms) handIndex"

definition recognize :: "recognizer \<Rightarrow> landmark list \<Rightarrow> nat \<Rightarrow> recognizer \<times> classified" where
  "recognize rec lms handIndex =
     (if length lms < 21 then (rec, \<lparr>ctype = NONE, confidence = 0\<rparr>)
      else applyHysteresis rec (rawClassification rec lms handIndex) handIndex)"

text \<open>The emitted types when one hand slot is fed a sequence of raw classifications.\<close>

fun emittedTypes :: "recognizer \<Rightarrow> nat \<Rightarrow> classified list \<Rightarrow> gesture_type list" where
  "emittedTypes rec handIndex [] = []"
| "emittedTypes rec handIndex (g # gs) =
     (case applyHysteresis rec g handIndex of
        (rec', out) \<Rightarrow> ctype out # emittedTypes rec' handIndex gs)"

text \<open>No stored history is longer than the buffer.\<close>

definition historyBounded :: "recognizer \<Rightarrow> bool" where
  "historyBounded rec =
     (\<forall>h hist. gestureHistory rec h = Some hist \<longrightarrow> length hist \<le> historySize)"

text \<open>The buffer of a hand slot after a raw type has been pushed.\<close>

definition pushHistory :: "recognizer \<Rightarrow> nat \<Rightarrow> gesture_type \<Rightarrow> gesture_type list" where
  "pushHistory rec handIndex t =
     (let history1 = (case gestureHistory rec handIndex of None \<Rightarrow> [] | Some h \<Rightarrow> h) @ [t]
      in if historySize < length history1 then tl history1 else history1)"

text \<open>A landmark array of 21 points with the tips of thumb, index and middle finger at
  \<open>(0, 1)\<close> and every other point at the origin.\<close>

definition pinchPose :: "landmark list" where
  "pinchPose =
     [Landmark 0 0 0, Landmark 0 0 0, Landmark 0 0 0, Landmark 0 0 0, Landmark 0 1 0,
      Landmark 0 0 0, Landmark 0 0 0, Landmark 0 0 0, Landmark 0 1 0, Landmark 0 0 0,
      Landmark 0 0 0, Landmark 0 0 0, Landmark 0 1 0, Landmark 0 0 0, Landmark 0 0 0,
      Landmark 0 0 0, Landmark 0 0 0, Landmark 0 0 0, Landmark 0 0 0, Landmark 0 0 0,
      Landmark 0 0 0]"

text \<open>The count stored under a key of \<^verbatim>\<open>counts\<close>, 0 when the key is absent.\<close>

definition cnt :: "(gesture_type \<times> nat) list \<Rightarrow> gesture_type \<Rightarrow> nat" where
  "cnt cs t = (case map_of cs t of None \<Rightarrow> 0 | Some c \<Rightarrow> c)"

section \<open>Landmark smoothing (handTracking.js, HandTracker)\<close>

text \<open>
  The tracker's state across frames: \<^verbatim>\<open>prevLandmarks\<close> (hand index to the landmarks
  returned last for that slot) and \<^verbatim>\<open>lastResult\<close>.
\<close>

record tracker =
  prevLandmarks :: "nat \<rightharpoonup> landmark list"
  lastResult :: "hand list option"

definition newTracker :: tracker where
  "newTracker = \<lparr>prevLandmarks = Map.empty, lastResult = None\<rparr>"

definition smoothingFactor :: real where "smoothingFactor = 0.8"

definition smoothLandmarks :: "tracker \<Rightarrow> landmark list \<Rightarrow> nat \<Rightarrow> tracker \<times> landmark list" where
  "smoothLandmarks trk lms handIndex =
     (case prevLandmarks trk handIndex of
        None \<Rightarrow> (trk\<lparr>prevLandmarks := (prevLandmarks trk)(handIndex \<mapsto> lms)\<rparr>, lms)
      | Some prev \<Rightarrow>
          let smoothed =
                map (\<lambda>idx.
                       let lm = lms ! idx in
                       if idx < length prev then
                         let prevLm = prev ! idx in
                         Landmark (lm_x prevLm * (1 - smoothingFactor) + lm_x lm * smoothingFactor)
                                  (lm_y prevLm * (1 - smoothingFactor) + lm_y lm * smoothingFactor)
                                  (lm_z prevLm * (1 - smoothingFactor) + lm_z lm * smoothingFactor)
                       else lm)
                    [0..<length lms]
          in (trk\<lparr>prevLandmarks := (prevLandmarks trk)(handIndex \<mapsto> smoothed)\<rparr>, smoothed))"

text \<open>
  What one call of \<^verbatim>\<open>detectHands\<close> meets: the tracker or the video is not ready, the
  video frame is the one of the last call, the detector throws, or the detector
  returns \<^verbatim>\<open>result.landmarks\<close> and \<^verbatim>\<open>result.worldLandmarks\<close>.
\<close>

datatype detection =
  NotReady | SameFrame | Failed | Detected "landmark list list" "landmark list list option"

text \<open>\<^verbatim>\<open>result.worldLandmarks?.[index] || null\<close>\<close>

definition worldAt :: "landmark list list option \<Rightarrow> nat \<Rightarrow> landmark list option" where
  "worldAt w i =
     (case w of None \<Rightarrow> None | Some ws \<Rightarrow> if i < length ws then Some (ws ! i) else None)"

text \<open>The \<^verbatim>\<open>map\<close> over \<^verbatim>\<open>result.landmarks\<close>, from hand index \<open>i\<close> on.\<close>

fun smoothAll ::
  "tracker \<Rightarrow> nat \<Rightarrow> landmark list list \<Rightarrow> landmark list list option \<Rightarrow> tracker \<times> hand list" where
  "smoothAll trk i [] w = (trk, [])"
| "smoothAll trk i (lms # rest) w =
     (case smoothLandmarks trk lms i of
        (trk1, smoothed) \<Rightarrow>
          (case smoothAll trk1 (Suc i) rest w of
             (trk2, hs) \<Rightarrow>
               (trk2, \<lparr>landmarks = smoothed, worldLandmarks = worldAt w i\<rparr> # hs)))"

definition detectHands :: "tracker \<Rightarrow> detection \<Rightarrow> tracker \<times> hand list option" where
  "detectHands trk d =
     (case d of
        NotReady \<Rightarrow> (trk, None)
      | SameFrame \<Rightarrow> (trk, lastResult trk)
      | Failed \<Rightarrow> (trk, None)
      | Detected ls w \<Rightarrow>
          if 0 < length ls then
            (case smoothAll trk 0 ls w of
               (trk', hs) \<Rightarrow> (trk'\<lparr>lastResult := Some hs\<rparr>, Some hs))
          else (trk\<lparr>lastResult := None, prevLandmarks := Map.empty\<rparr>, None))"

section \<open>Properties of the binary64 rounding\<close>

lemma roundEven_of_int: "roundEven (of_int n) = n"
  by (simp add: roundEven_def)

lemma roundEven_bounds: "\<lfloor>r\<rfloor> \<le> roundEven r" "roundEven r \<le> \<lfloor>r\<rfloor> + 1"
  by (simp_all add: roundEven_def Let_def)

lemma roundEven_ge:
  assumes "of_int n \<le> r" shows "n \<le> roundEven r"
proof -
  have "n \<le> \<lfloor>r\<rfloor>" using assms by (simp add: le_floor_iff)
  then show ?thesis using roundEven_bounds(1)[of r] by linarith
qed

lemma roundEven_le:
  assumes "r \<le> of_int n" shows "roundEven r \<le> n"
proof (cases "r = of_int n")
  case True then show ?thesis by (simp add: roundEven_of_int)
next
  case False
  then have "r < of_int n" using assms by simp
  then have "\<lfloor>r\<rfloor> < n" by (simp add: floor_less_iff)
  then show ?thesis using roundEven_bounds(2)[of r] by linarith
qed

lemma roundEven_minus: "roundEven (- r) = - roundEven r"
proof (cases "r = of_int \<lfloor>r\<rfloor>")
  case True
  then obtain n :: int where "r = of_int n" ..
  then have "roundEven r = n" "roundEven (- r) = - n"
    using roundEven_of_int[of n] roundEven_of_int[of "- n"] by simp_all
  then show ?thesis by simp
next
  case False
  let ?f = "\<lfloor>r\<rfloor>"
  have lt: "of_int ?f < r" using False by (metis floor_eq_iff less_eq_real_def of_int_floor_le order.not_eq_order_implies_strict)
  have ut: "r < of_int ?f + 1" by linarith
  have cast: "(of_int (- ?f - 1) :: real) = - of_int ?f - 1" by simp
  have "of_int (- ?f - 1) \<le> - r" unfolding cast using ut by linarith
  moreover have "- r < of_int (- ?f - 1) + 1" unfolding cast using lt by linarith
  ultimately have fl: "\<lfloor>- r\<rfloor> = - ?f - 1" by (rule floor_unique)
  show ?thesis
    unfolding roundEven_def Let_def fl using lt ut
    by (auto simp: algebra_simps)
qed

lemma binade_abs: "binade (- v) = binade v"
  by (simp add: binade_def)

lemma ulp64_pos: "0 < ulp64 v"
  by (simp add: ulp64_def)

lemma rnd64_minus: "rnd64 (- v) = - rnd64 v"
  by (simp add: rnd64_def ulp64_def binade_abs roundEven_minus)

lemma binade_eq:
  assumes "v \<noteq> 0" "2 powr of_int e \<le> \<bar>v\<bar>" "\<bar>v\<bar> < 2 powr (of_int e + 1)" "- 1022 \<le> e"
  shows "binade v = e"
proof -
  have p: "0 < \<bar>v\<bar>" using assms(1) by simp
  have "of_int e \<le> log 2 \<bar>v\<bar>" using assms(2) p by (simp add: le_log_iff)
  moreover have "log 2 \<bar>v\<bar> < of_int e + 1" using assms(3) p by (simp add: log_less_iff)
  ultimately have "\<lfloor>log 2 \<bar>v\<bar>\<rfloor> = e" by (intro floor_unique) simp_all
  then show ?thesis using assms(4) by (simp add: binade_def)
qed

lemma rnd64_eval:
  assumes "v \<noteq> 0" "2 powr of_int e \<le> \<bar>v\<bar>" "\<bar>v\<bar> < 2 powr (of_int e + 1)" "- 1022 \<le> e"
  shows "rnd64 v = 2 powr of_int (e - 52) * of_int (roundEven (v / 2 powr of_int (e - 52)))"
  using assms(1) binade_eq[OF assms] by (simp add: rnd64_def ulp64_def)

lemma binade_mono:
  assumes "a \<noteq> 0" "\<bar>a\<bar> \<le> \<bar>b\<bar>" shows "binade a \<le> binade b"
proof -
  have "log 2 \<bar>a\<bar> \<le> log 2 \<bar>b\<bar>" using assms by simp
  then have "\<lfloor>log 2 \<bar>a\<bar>\<rfloor> \<le> \<lfloor>log 2 \<bar>b\<bar>\<rfloor>" by (rule floor_mono)
  then show ?thesis by (simp add: binade_def)
qed

lemma below_next_binade:
  assumes "v \<noteq> 0" shows "\<bar>v\<bar> < 2 powr (of_int (binade v) + 1)"
proof -
  have "log 2 \<bar>v\<bar> < of_int \<lfloor>log 2 \<bar>v\<bar>\<rfloor> + 1" by linarith
  also have "\<dots> \<le> of_int (binade v) + 1" by (simp add: binade_def)
  finally show ?thesis using assms by (simp add: log_less_iff)
qed

lemma above_binade:
  assumes "v \<noteq> 0" "- 1022 < binade v" shows "2 powr of_int (binade v) \<le> \<bar>v\<bar>"
proof -
  have "binade v = \<lfloor>log 2 \<bar>v\<bar>\<rfloor>" using assms(2) by (simp add: binade_def max_def split: if_splits)
  then have "of_int (binade v) \<le> log 2 \<bar>v\<bar>" by simp
  then show ?thesis using assms(1) by (simp add: le_log_iff)
qed

lemma rnd64_ge:
  assumes "0 < c" "c \<le> v" "c = of_int m * ulp64 c"
  shows "c \<le> rnd64 v"
proof -
  have v: "0 < v" "v \<noteq> 0" using assms by simp_all
  have bm: "binade c \<le> binade v" using assms by (intro binade_mono) simp_all
  have r: "rnd64 v = ulp64 v * of_int (roundEven (v / ulp64 v))" using v by (simp add: rnd64_def)
  show ?thesis
  proof (cases "binade c = binade v")
    case True
    then have u: "ulp64 v = ulp64 c" by (simp add: ulp64_def)
    define w where "w = ulp64 c"
    have "c = of_int m * w" "0 < w" using assms(3) ulp64_pos[of c] by (simp_all add: w_def)
    then have "of_int m = c / w" by simp
    then have "of_int m = c / ulp64 c" by (simp add: w_def)
    also have "\<dots> \<le> v / ulp64 c" using assms(2) ulp64_pos[of c] by (simp add: divide_right_mono)
    finally have "m \<le> roundEven (v / ulp64 c)" by (rule roundEven_ge)
    then have "of_int m * ulp64 c \<le> of_int (roundEven (v / ulp64 c)) * ulp64 c"
      using ulp64_pos[of c] by simp
    then show ?thesis using assms(3) r u by (simp add: mult.commute)
  next
    case False
    then have lt: "binade c < binade v" using bm by simp
    then have "- 1022 < binade v" by (simp add: binade_def)
    then have ab: "2 powr of_int (binade v) \<le> v" using above_binade[of v] v by simp
    have "of_int (2 ^ 52) = 2 powr of_int (binade v) / ulp64 v"
      by (simp add: ulp64_def powr_diff)
    also have "\<dots> \<le> v / ulp64 v" using ab ulp64_pos[of v] by (simp add: divide_right_mono)
    finally have "2 ^ 52 \<le> roundEven (v / ulp64 v)" by (rule roundEven_ge)
    then have "of_int (2 ^ 52) * ulp64 v \<le> of_int (roundEven (v / ulp64 v)) * ulp64 v"
      using ulp64_pos[of v] by (simp del: of_int_power of_int_numeral)
    moreover have "of_int (2 ^ 52) * ulp64 v = 2 powr of_int (binade v)"
      by (simp add: ulp64_def powr_diff)
    ultimately have "2 powr of_int (binade v) \<le> rnd64 v" using r by (simp add: mult.commute)
    moreover have "c < 2 powr (of_int (binade c) + 1)"
      using below_next_binade[of c] assms(1) by simp
    moreover have "(2::real) powr (of_int (binade c) + 1) \<le> 2 powr of_int (binade v)"
    proof -
      have "(of_int (binade c) + 1 :: real) \<le> of_int (binade v)" using lt by linarith
      then show ?thesis by simp
    qed
    ultimately show ?thesis by linarith
  qed
qed

lemma rnd64_le_neg:
  assumes "0 < c" "v \<le> - c" "c = of_int m * ulp64 c"
  shows "rnd64 v \<le> - c"
proof -
  have "c \<le> rnd64 (- v)" using assms by (intro rnd64_ge) simp_all
  then show ?thesis by (simp add: rnd64_minus)
qed

lemma double_above_one:
  assumes "isDouble x" "1 < x"
  shows "1 + 2 powr (- 52) \<le> x"
proof -
  define n where "n = roundEven (x / ulp64 x)"
  have x: "x = ulp64 x * of_int n" using assms by (simp add: isDouble_def rnd64_def n_def)
  have "0 < log 2 x" using assms(2) by simp
  then have "0 \<le> \<lfloor>log 2 \<bar>x\<bar>\<rfloor>" using assms(2) by simp
  then have b: "0 \<le> binade x" by (simp add: binade_def)
  have "ulp64 x = 2 powr of_int (binade x) * 2 powr (- 52)"
    by (simp add: ulp64_def powr_diff powr_minus field_simps)
  also have "2 powr of_int (binade x) = (2::real) ^ nat (binade x)"
    using b by (simp add: powr_realpow[symmetric])
  finally have u: "ulp64 x = of_int (2 ^ nat (binade x)) * 2 powr (- 52)" by simp
  define k where "k = 2 ^ nat (binade x) * n"
  have xk: "x = of_int k * 2 powr (- 52)"
    by (subst x) (simp add: u k_def)
  have "(1::real) < of_int k * 2 powr (- 52)" using assms(2) xk by simp
  then have "(2::real) ^ 52 < of_int k" by (simp add: field_simps powr_neg_numeral)
  then have "(2::int) ^ 52 < k" by (metis of_int_less_iff of_int_numeral of_int_power)
  then have "(2::int) ^ 52 + 1 \<le> k" by simp
  then have "(of_int ((2::int) ^ 52 + 1) :: real) \<le> of_int k" by (simp only: of_int_le_iff)
  then have "((2::real) ^ 52 + 1) * 2 powr (- 52) \<le> of_int k * 2 powr (- 52)" by simp
  then show ?thesis using xk by (simp add: field_simps powr_neg_numeral)
qed

lemma double_below_zero:
  assumes "isDouble y" "y < 0"
  shows "y \<le> - (2 powr (- 1074))"
proof -
  define n where "n = roundEven (y / ulp64 y)"
  have y: "y = ulp64 y * of_int n" using assms by (simp add: isDouble_def rnd64_def n_def)
  have "of_int n < (0::real)"
  proof (rule ccontr)
    assume "\<not> of_int n < (0::real)"
    then have "0 \<le> ulp64 y * of_int n" using ulp64_pos[of y] by simp
    then show False using y assms(2) by simp
  qed
  then have "n \<le> - 1" by simp
  then have "(of_int n :: real) \<le> - 1" by (metis of_int_le_iff of_int_minus of_int_1)
  then have "ulp64 y * of_int n \<le> ulp64 y * (- 1)"
    using ulp64_pos[of y] by (intro mult_left_mono) simp_all
  then have "y \<le> - ulp64 y" using y by simp
  moreover have "(2::real) powr (- 1074) \<le> ulp64 y"
  proof -
    have "- 1022 \<le> binade y" by (simp add: binade_def)
    then have "(- 1074 :: real) \<le> of_int (binade y - 52)" by simp
    then show ?thesis unfolding ulp64_def by (simp del: of_int_diff)
  qed
  ultimately show ?thesis by linarith
qed

lemma rnd64_values:
  "rnd64 1 = 1" "rnd64 3 = 3" "rnd64 (1/2) = 1/2" "rnd64 (3/2) = 3/2"
  "rnd64 (- (1/2)) = - (1/2)" "rnd64 (- (3/2)) = - (3/2)"
proof -
  show "rnd64 1 = 1" by (subst rnd64_eval[where e = 0]) (simp_all add: roundEven_def powr_neg_numeral)
  show "rnd64 3 = 3" by (subst rnd64_eval[where e = 1]) (simp_all add: roundEven_def powr_neg_numeral)
  show h: "rnd64 (1/2) = 1/2" by (subst rnd64_eval[where e = "- 1"]) (simp_all add: roundEven_def powr_neg_numeral)
  show t: "rnd64 (3/2) = 3/2" by (subst rnd64_eval[where e = 0]) (simp_all add: roundEven_def powr_neg_numeral)
  show "rnd64 (- (1/2)) = - (1/2)" using h by (simp only: rnd64_minus)
  show "rnd64 (- (3/2)) = - (3/2)" using t by (simp only: rnd64_minus)
qed

lemma grid_points:
  "(1::real) = of_int (2 ^ 52) * ulp64 1"
  "(3::real) = of_int (3 * 2 ^ 51) * ulp64 3"
  "2 powr (- 52) = of_int (2 ^ 52) * ulp64 (2 powr (- 52))"
  "2 powr (- 1074) = of_int 1 * ulp64 (2 powr (- 1074))"
proof -
  have b1: "binade 1 = 0" by (rule binade_eq) simp_all
  have b3: "binade 3 = 1" by (rule binade_eq) simp_all
  have b52: "binade (2 powr (- 52)) = - 52" by (simp add: binade_def)
  have b1074: "binade (2 powr (- 1074)) = - 1022" by (simp add: binade_def)
  show "(1::real) = of_int (2 ^ 52) * ulp64 1" by (simp add: ulp64_def b1 powr_neg_numeral)
  show "(3::real) = of_int (3 * 2 ^ 51) * ulp64 3" by (simp add: ulp64_def b3 powr_neg_numeral)
  show "2 powr (- 52) = of_int (2 ^ 52) * ulp64 (2 powr (- 52))" unfolding ulp64_def b52 by (simp add: powr_neg_numeral)
  show "2 powr (- 1074) = of_int 1 * ulp64 (2 powr (- 1074))" unfolding ulp64_def b1074 by simp
qed

lemma rnd64_zero: "rnd64 0 = 0"
  by (simp add: rnd64_def)

lemma getCellIndex_unfold:
  "getCellIndex x y =
     (if 0 \<le> \<lfloor>dmul (dsub 1 x) 3\<rfloor> \<and> \<lfloor>dmul (dsub 1 x) 3\<rfloor> < 3 \<and>
         0 \<le> \<lfloor>dmul y 3\<rfloor> \<and> \<lfloor>dmul y 3\<rfloor> < 3
      then \<lfloor>dmul y 3\<rfloor> * 3 + \<lfloor>dmul (dsub 1 x) 3\<rfloor> else - 1)"
  by (simp add: getCellIndex_def gridCols_def gridRows_def Let_def not_less not_le)

lemma getCellIndex_range: "getCellIndex x y = - 1 \<or> (0 \<le> getCellIndex x y \<and> getCellIndex x y \<le> 8)"
proof -
  let ?col = "\<lfloor>dmul (dsub 1 x) 3\<rfloor>" and ?row = "\<lfloor>dmul y 3\<rfloor>"
  show ?thesis
  proof (cases "0 \<le> ?col \<and> ?col < 3 \<and> 0 \<le> ?row \<and> ?row < 3")
    case True
    have "getCellIndex x y = ?row * 3 + ?col" unfolding getCellIndex_unfold by (rule if_P[OF True])
    moreover have "0 \<le> ?row * 3 + ?col \<and> ?row * 3 + ?col \<le> 8" using True by linarith
    ultimately show ?thesis by simp
  next
    case False
    have "getCellIndex x y = - 1" unfolding getCellIndex_unfold by (rule if_not_P[OF False])
    then show ?thesis by simp
  qed
qed

lemma rnd64_tenth: "rnd64 (1/10) = 3602879701896397 / 2 ^ 55"
  by (subst rnd64_eval[where e = "- 4"]) (simp_all add: roundEven_def powr_neg_numeral)

lemma rnd64_three_tenths: "rnd64 (3/10) = 5404319552844595 / 2 ^ 54"
  by (subst rnd64_eval[where e = "- 2"]) (simp_all add: roundEven_def powr_neg_numeral)

lemma rnd64_three_times_tenth: "rnd64 (3602879701896397 / 2 ^ 55 * 3) = 5404319552844596 / 2 ^ 54"
  by (subst rnd64_eval[where e = "- 2"]) (simp_all add: roundEven_def powr_neg_numeral)

lemma rnd64_nine_tenths: "rnd64 (9/10) = 8106479329266893 / 2 ^ 53"
  by (subst rnd64_eval[where e = "- 1"]) (simp_all add: roundEven_def powr_neg_numeral)

lemma rnd64_one_minus_nine_tenths:
  "rnd64 (1 - 8106479329266893 / 2 ^ 53) = 900719925474099 / 2 ^ 53"
  by (subst rnd64_eval[where e = "- 4"]) (simp_all add: roundEven_def powr_neg_numeral)

lemma rnd64_three_times_that:
  "rnd64 (900719925474099 / 2 ^ 53 * 3) = 2702159776422297 / 2 ^ 53"
  by (subst rnd64_eval[where e = "- 2"]) (simp_all add: roundEven_def powr_neg_numeral)

lemma floor_of_eq: "a = b \<Longrightarrow> \<lfloor>b\<rfloor> = n \<Longrightarrow> \<lfloor>a :: real\<rfloor> = (n :: int)"
  by simp

lemma cell_of_nine_tenths:
  "\<lfloor>dmul (dsub 1 (9/10)) 3\<rfloor> = 0" "\<lfloor>dmul (1/10) 3\<rfloor> = 0"
proof -
  have "(1 - 9/10 :: real) = 1/10" by simp
  then have "dsub 1 (9/10) = 3602879701896397 / 2 ^ 55"
    by (simp only: dsub_def rnd64_tenth)
  then have "dmul (dsub 1 (9/10)) 3 = 5404319552844596 / 2 ^ 54"
    by (simp only: dmul_def rnd64_three_times_tenth)
  then show "\<lfloor>dmul (dsub 1 (9/10)) 3\<rfloor> = 0" by (rule floor_of_eq) simp
  have "(1/10 * 3 :: real) = 3/10" by simp
  then have "dmul (1/10) 3 = 5404319552844595 / 2 ^ 54"
    by (simp only: dmul_def rnd64_three_tenths)
  then show "\<lfloor>dmul (1/10) 3\<rfloor> = 0" by (rule floor_of_eq) simp
qed

lemma cell_of_half: "\<lfloor>dmul (dsub 1 (1/2)) 3\<rfloor> = 1" "\<lfloor>dmul (1/2) 3\<rfloor> = 1"
proof -
  have "(1 - 1/2 :: real) = 1/2" "(1/2 * 3 :: real) = 3/2" by simp_all
  then have v: "dmul (dsub 1 (1/2)) 3 = 3/2" "dmul (1/2) 3 = 3/2"
    by (simp_all only: dsub_def dmul_def rnd64_values)
  show "\<lfloor>dmul (dsub 1 (1/2)) 3\<rfloor> = 1" by (rule floor_of_eq[OF v(1)]) simp
  show "\<lfloor>dmul (1/2) 3\<rfloor> = 1" by (rule floor_of_eq[OF v(2)]) simp
qed

lemma getCellIndex_samples:
  "getCellIndex (9/10) (1/10) = 0" "getCellIndex (1/2) (1/10) = 1" "getCellIndex (1/2) (1/2) = 4"
  unfolding getCellIndex_unfold cell_of_nine_tenths cell_of_half by simp_all

lemma cell_of_literals:
  "\<lfloor>dmul (dsub 1 (rnd64 (9/10))) 3\<rfloor> = 0" "\<lfloor>dmul (rnd64 (1/10)) 3\<rfloor> = 0"
proof -
  have "dsub 1 (rnd64 (9/10)) = 900719925474099 / 2 ^ 53"
    by (simp only: dsub_def rnd64_nine_tenths rnd64_one_minus_nine_tenths)
  then have "dmul (dsub 1 (rnd64 (9/10))) 3 = 2702159776422297 / 2 ^ 53"
    by (simp only: dmul_def rnd64_three_times_that)
  then show "\<lfloor>dmul (dsub 1 (rnd64 (9/10))) 3\<rfloor> = 0" by (rule floor_of_eq) simp
  have "dmul (rnd64 (1/10)) 3 = 5404319552844596 / 2 ^ 54"
    by (simp only: dmul_def rnd64_tenth rnd64_three_times_tenth)
  then show "\<lfloor>dmul (rnd64 (1/10)) 3\<rfloor> = 0" by (rule floor_of_eq) simp
qed

lemma cell_of_edges:
  "\<lfloor>dmul (dsub 1 (3/2)) 3\<rfloor> = - 2" "\<lfloor>dmul (dsub 1 1) 3\<rfloor> = 0" "\<lfloor>dmul (dsub 1 0) 3\<rfloor> = 3"
proof -
  have "(1 - 3/2 :: real) = - (1/2)" "(- (1/2) * 3 :: real) = - (3/2)" by simp_all
  then have "dmul (dsub 1 (3/2)) 3 = - (3/2)"
    by (simp only: dsub_def dmul_def rnd64_values)
  then show "\<lfloor>dmul (dsub 1 (3/2)) 3\<rfloor> = - 2" by (rule floor_of_eq) simp
  have "(1 - 1 :: real) = 0" "(0 * 3 :: real) = 0" by simp_all
  then have "dmul (dsub 1 1) 3 = 0" by (simp only: dsub_def dmul_def rnd64_zero)
  then show "\<lfloor>dmul (dsub 1 1) 3\<rfloor> = 0" by (rule floor_of_eq) simp
  have "(1 - 0 :: real) = 1" "(1 * 3 :: real) = 3" by simp_all
  then have "dmul (dsub 1 0) 3 = 3" by (simp only: dsub_def dmul_def rnd64_values)
  then show "\<lfloor>dmul (dsub 1 0) 3\<rfloor> = 3" by (rule floor_of_eq) simp
qed

lemma getCellIndex_literals:
  "getCellIndex (rnd64 (9/10)) (rnd64 (1/10)) = 0" "getCellIndex (3/2) (1/2) = - 1"
  "getCellIndex 1 (1/2) = 3" "getCellIndex 0 y = - 1"
  unfolding getCellIndex_unfold cell_of_literals cell_of_edges cell_of_half by simp_all

lemma product_at_least_three:
  assumes "1 \<le> v" shows "3 \<le> \<lfloor>dmul v 3\<rfloor>"
proof -
  have "3 \<le> v * 3" using assms by simp
  then have "3 \<le> rnd64 (v * 3)" by (intro rnd64_ge[OF _ _ grid_points(2)]) simp_all
  then show ?thesis by (simp add: dmul_def le_floor_iff)
qed

lemma getCellIndex_left:
  assumes "x \<le> 0" shows "getCellIndex x y = - 1"
proof -
  have "1 \<le> 1 - x" using assms by simp
  then have "1 \<le> dsub 1 x" unfolding dsub_def by (intro rnd64_ge[OF _ _ grid_points(1)]) simp_all
  then have "3 \<le> \<lfloor>dmul (dsub 1 x) 3\<rfloor>" by (rule product_at_least_three)
  then show ?thesis unfolding getCellIndex_unfold by simp
qed

lemma getCellIndex_below:
  assumes "1 \<le> y" shows "getCellIndex x y = - 1"
  using product_at_least_three[OF assms] unfolding getCellIndex_unfold by simp

lemma getCellIndex_right:
  assumes "isDouble x" "1 < x" shows "getCellIndex x y = - 1"
proof -
  let ?c = "2 powr (- 52) :: real"
  have c: "0 < ?c" by simp
  have "1 - x \<le> - ?c" using double_above_one[OF assms] by simp
  then have f: "dsub 1 x \<le> - ?c" unfolding dsub_def by (intro rnd64_le_neg[OF c _ grid_points(3)])
  then have "dsub 1 x * 3 \<le> - ?c" using c by linarith
  then have "dmul (dsub 1 x) 3 \<le> - ?c" unfolding dmul_def
    by (intro rnd64_le_neg[OF c _ grid_points(3)])
  then have "dmul (dsub 1 x) 3 < 0" using c by linarith
  then have "\<lfloor>dmul (dsub 1 x) 3\<rfloor> < 0" by (simp add: floor_less_iff)
  then show ?thesis unfolding getCellIndex_unfold by simp
qed

lemma getCellIndex_above:
  assumes "isDouble y" "y < 0" shows "getCellIndex x y = - 1"
proof -
  let ?c = "2 powr (- 1074) :: real"
  have c: "0 < ?c" by simp
  have "y \<le> - ?c" using double_below_zero[OF assms] by simp
  then have "y * 3 \<le> - ?c" using c by linarith
  then have "dmul y 3 \<le> - ?c" unfolding dmul_def
    by (intro rnd64_le_neg[OF c _ grid_points(4)])
  then have "dmul y 3 < 0" using c by linarith
  then have "\<lfloor>dmul y 3\<rfloor> < 0" by (simp add: floor_less_iff)
  then show ?thesis unfolding getCellIndex_unfold by simp
qed

lemma isDouble_values: "isDouble 1" "isDouble (1/2)" "isDouble (3/2)" "isDouble 0"
  by (simp_all add: isDouble_def rnd64_values rnd64_zero)

lemma near_one_rounds_to_one: "dsub 1 (1 / 2 ^ 60) = 1"
  unfolding dsub_def
  by (subst rnd64_eval[where e = "- 1"]) (simp_all add: roundEven_def powr_neg_numeral)

section \<open>Properties of the cell mapping\<close>

text \<open>
  Claim C10. For every \<open>y\<close> the cell mapping at \<open>x = 0\<close> returns \<open>-1\<close>: the mirror
  flip gives \<open>flippedX = 1\<close>, so the column is \<open>\<lfloor>3\<rfloor> = 3\<close>, which fails the column
  range check. The left edge of the mirrored image activates no cell.
\<close>

theorem getCellIndex_left_edge:
  "\<lfloor>(1 - 0) * (of_int gridCols :: real)\<rfloor> = gridCols \<and> getCellIndex 0 y = - 1 \<and>
   dsub 1 0 = 1 \<and> \<lfloor>dmul (dsub 1 0) (of_int gridCols)\<rfloor> = gridCols"
proof -
  have "(1 - 0 :: real) = 1" by simp
  then have "dsub 1 0 = 1" by (simp only: dsub_def rnd64_values)
  then show ?thesis
    using cell_of_edges(3) getCellIndex_literals(4)[of y] by (simp add: gridCols_def)
qed

text \<open>
  Claim C7, as the code has it. In binary64 arithmetic the mapping computes
  \<open>flippedX = 1 - x\<close>, \<open>col = \<lfloor>flippedX * 3\<rfloor>\<close>, \<open>row = \<lfloor>y * 3\<rfloor>\<close> and returns
  \<open>row * 3 + col\<close>, a value in \<open>0..8\<close>, when both \<open>col\<close> and \<open>row\<close> are in \<open>0..2\<close>, and \<open>-1\<close>
  otherwise. For binary64 inputs it returns \<open>-1\<close> whenever \<open>x < 0\<close>, \<open>x > 1\<close>, \<open>y < 0\<close> or
  \<open>y \<ge> 1\<close>. In particular \<open>toCell(0.9, 0.1) = 0\<close>, for the binary64 numbers that the
  literals denote, and \<open>toCell(1.5, 0.5) = -1\<close>.
\<close>

theorem getCellIndex_cells:
  "getCellIndex x y =
     (let flippedX = dsub 1 x; col = \<lfloor>dmul flippedX 3\<rfloor>; row = \<lfloor>dmul y 3\<rfloor>
      in if 0 \<le> col \<and> col < 3 \<and> 0 \<le> row \<and> row < 3 then row * 3 + col else - 1) \<and>
   (getCellIndex x y = - 1 \<or> (0 \<le> getCellIndex x y \<and> getCellIndex x y \<le> 8)) \<and>
   (isDouble x \<and> isDouble y \<and> (x < 0 \<or> 1 < x \<or> y < 0 \<or> 1 \<le> y) \<longrightarrow> getCellIndex x y = - 1) \<and>
   getCellIndex (rnd64 (9/10)) (rnd64 (1/10)) = 0 \<and> getCellIndex (3/2) (1/2) = - 1"
proof -
  have a: "getCellIndex x y =
     (let flippedX = dsub 1 x; col = \<lfloor>dmul flippedX 3\<rfloor>; row = \<lfloor>dmul y 3\<rfloor>
      in if 0 \<le> col \<and> col < 3 \<and> 0 \<le> row \<and> row < 3 then row * 3 + col else - 1)"
    unfolding Let_def by (rule getCellIndex_unfold)
  have b: "isDouble x \<and> isDouble y \<and> (x < 0 \<or> 1 < x \<or> y < 0 \<or> 1 \<le> y) \<longrightarrow> getCellIndex x y = - 1"
    using getCellIndex_left[of x y] getCellIndex_right[of x y] getCellIndex_above[of y x]
      getCellIndex_below[of y x] by force
  show ?thesis
    using a b getCellIndex_range[of x y] getCellIndex_literals(1,2) by blast
qed

theorem getCellIndex_cells_witness:
  "isDouble (- (1/2)) \<and> isDouble (1/2) \<and> getCellIndex (- (1/2)) (1/2) = - 1"
proof -
  have d: "isDouble (- (1/2))" "isDouble (1/2)"
    by (simp_all add: isDouble_def rnd64_values)
  then show ?thesis using getCellIndex_cells[of "- (1/2)" "1/2"] by simp
qed

text \<open>
  The claim as stated fails at the right edge: \<open>x = 1\<close> lies outside \<open>[0, 1)\<close>, yet the
  mapping returns cell 3 for \<open>(1, 0.5)\<close>.
\<close>

theorem getCellIndex_right_edge_counterexample:
  "\<not> (0 \<le> (1::real) \<and> (1::real) < 1) \<and> isDouble 1 \<and> isDouble (1/2) \<and> getCellIndex 1 (1/2) = 3"
  using isDouble_values getCellIndex_literals(3) by simp

text \<open>
  Rounding moves the cell boundaries: the binary64 number \<open>2\<^sup>-\<^sup>6\<^sup>0\<close> lies in \<open>(0, 1]\<close>, but
  \<open>1 - x\<close> rounds to 1 and the mapping returns \<open>-1\<close>.
\<close>

lemma getCellIndex_near_left_edge: "getCellIndex (1 / 2 ^ 60) (1/2) = - 1"
proof -
  have "(1 * 3 :: real) = 3" by simp
  then have "dmul (dsub 1 (1 / 2 ^ 60)) 3 = 3"
    by (simp only: near_one_rounds_to_one dmul_def rnd64_values)
  then have "\<lfloor>dmul (dsub 1 (1 / 2 ^ 60)) 3\<rfloor> = 3" by (rule floor_of_eq) simp
  then show ?thesis unfolding getCellIndex_unfold by simp
qed

section \<open>Properties of the grid controller\<close>

lemma inCell_grab:
  assumes "cellObjects s c = Some arr" "arr \<noteq> []" "distinct arr"
  shows "inCell (grabObject s h c hnd) c' e \<longleftrightarrow> inCell s c' e \<and> \<not> (c' = c \<and> e = last arr)"
proof -
  obtain ys y where arr: "arr = ys @ [y]" using assms(2) by (cases arr rule: rev_cases) auto
  have "e \<in> set (butlast arr) \<longleftrightarrow> e \<in> set arr \<and> e \<noteq> last arr"
    using assms(3) unfolding arr by auto
  then show ?thesis
    using assms(1,2) by (auto simp: inCell_def grabObject_def Let_def)
qed

lemma heldBy_grab:
  assumes "cellObjects s c = Some arr" "arr \<noteq> []" "heldObjects s h = None"
  shows "heldBy (grabObject s h c hnd) h' e \<longleftrightarrow> heldBy s h' e \<or> (h' = h \<and> e = last arr)"
  using assms by (auto simp: heldBy_def grabObject_def Let_def split: option.splits)

lemma wf_grab:
  assumes "cellsWellFormed s"
  shows "cellsWellFormed (grabObject s h c hnd)"
  using assms unfolding cellsWellFormed_def grabObject_def Let_def
  by (auto split: option.splits if_splits simp: distinct_butlast)

lemma inCell_drop:
  assumes "dropObject s h c = Inr s'" "heldObjects s h = Some r"
  shows "inCell s' c' e \<longleftrightarrow> inCell s c' e \<or> (c' = c \<and> e = element r)"
  using assms by (auto simp: inCell_def dropObject_def Let_def split: option.splits if_splits)

lemma heldBy_drop:
  assumes "dropObject s h c = Inr s'" "heldObjects s h = Some r"
  shows "heldBy s' h' e \<longleftrightarrow> heldBy s h' e \<and> h' \<noteq> h"
  using assms by (auto simp: heldBy_def dropObject_def Let_def split: option.splits if_splits)

lemma ownership_grab:
  assumes "ownership s" "cellsWellFormed s" "cellObjects s c = Some arr" "arr \<noteq> []" "heldObjects s h = None"
  shows "ownership (grabObject s h c hnd)"
proof -
  have d: "distinct arr" using assms(2,3) by (simp add: cellsWellFormed_def)
  have l: "inCell s c (last arr)" using assms(3,4) by (simp add: inCell_def)
  note ic = inCell_grab[OF assms(3,4) d] and hb = heldBy_grab[OF assms(3,4,5)]
  have o1: "\<And>c1 c2 e. inCell s c1 e \<Longrightarrow> inCell s c2 e \<Longrightarrow> c1 = c2"
   and o2: "\<And>h1 h2 e. heldBy s h1 e \<Longrightarrow> heldBy s h2 e \<Longrightarrow> h1 = h2"
   and o3: "\<And>c h e. inCell s c e \<Longrightarrow> \<not> heldBy s h e"
   and o4: "\<And>e. e \<in> objects \<longleftrightarrow> (\<exists>c. inCell s c e) \<or> (\<exists>h. heldBy s h e)"
    using assms(1) unfolding ownership_def by blast+
  have nh: "\<And>e. \<not> heldBy s h e" using assms(5) by (simp add: heldBy_def)
  have p1: "\<forall>c1 c2 e. inCell (grabObject s h c hnd) c1 e \<and> inCell (grabObject s h c hnd) c2 e \<longrightarrow> c1 = c2"
    unfolding ic using o1 by blast
  have p2: "\<forall>h1 h2 e. heldBy (grabObject s h c hnd) h1 e \<and> heldBy (grabObject s h c hnd) h2 e \<longrightarrow> h1 = h2"
    unfolding hb using o2 o3 l nh by blast
  have p3: "\<forall>c' h' e. inCell (grabObject s h c hnd) c' e \<longrightarrow> \<not> heldBy (grabObject s h c hnd) h' e"
    unfolding ic hb using o1 o3 l by blast
  have p4: "\<forall>e. e \<in> objects \<longleftrightarrow> (\<exists>c'. inCell (grabObject s h c hnd) c' e) \<or> (\<exists>h'. heldBy (grabObject s h c hnd) h' e)"
    unfolding ic hb o4 using l by blast
  show ?thesis unfolding ownership_def using p1 p2 p3 p4 by blast
qed

lemma ownership_drop:
  assumes "ownership s" "dropObject s h c = Inr s'"
  shows "ownership s'"
proof (cases "heldObjects s h")
  case None then show ?thesis using assms by (simp add: dropObject_def)
next
  case (Some r)
  have l: "heldBy s h (element r)" using Some by (simp add: heldBy_def)
  have u: "\<And>e. heldBy s h e \<Longrightarrow> e = element r" using Some by (simp add: heldBy_def)
  note ic = inCell_drop[OF assms(2) Some] and hb = heldBy_drop[OF assms(2) Some]
  have o1: "\<And>c1 c2 e. inCell s c1 e \<Longrightarrow> inCell s c2 e \<Longrightarrow> c1 = c2"
   and o2: "\<And>h1 h2 e. heldBy s h1 e \<Longrightarrow> heldBy s h2 e \<Longrightarrow> h1 = h2"
   and o3: "\<And>c h e. inCell s c e \<Longrightarrow> \<not> heldBy s h e"
   and o4: "\<And>e. e \<in> objects \<longleftrightarrow> (\<exists>c. inCell s c e) \<or> (\<exists>h. heldBy s h e)"
    using assms(1) unfolding ownership_def by blast+
  have p1: "\<forall>c1 c2 e. inCell s' c1 e \<and> inCell s' c2 e \<longrightarrow> c1 = c2"
    unfolding ic using o1 o3 l by blast
  have p2: "\<forall>h1 h2 e. heldBy s' h1 e \<and> heldBy s' h2 e \<longrightarrow> h1 = h2"
    unfolding hb using o2 by blast
  have p3: "\<forall>c' h' e. inCell s' c' e \<longrightarrow> \<not> heldBy s' h' e"
    unfolding ic hb using o2 o3 l by blast
  have p4: "\<forall>e. e \<in> objects \<longleftrightarrow> (\<exists>c'. inCell s' c' e) \<or> (\<exists>h'. heldBy s' h' e)"
    unfolding ic hb o4 using l u by blast
  show ?thesis unfolding ownership_def using p1 p2 p3 p4 by blast
qed

lemma wf_drop:
  assumes "ownership s" "cellsWellFormed s" "dropObject s h c = Inr s'"
  shows "cellsWellFormed s'"
proof (cases "heldObjects s h")
  case None then show ?thesis using assms by (simp add: dropObject_def)
next
  case (Some r)
  have l: "heldBy s h (element r)" using Some by (simp add: heldBy_def)
  have n: "\<not> inCell s c (element r)" using assms(1) l by (auto simp: ownership_def)
  have rng: "0 \<le> c \<and> c < 9" and
    s': "s' = s\<lparr>cellObjects := (cellObjects s)(c \<mapsto> (case cellObjects s c of None \<Rightarrow> [] | Some a \<Rightarrow> a) @ [element r]),
                      heldObjects := (heldObjects s)(h := None)\<rparr>"
    using assms(3) Some by (auto simp: dropObject_def Let_def gridCellCount_def split: if_splits)
  show ?thesis unfolding cellsWellFormed_def
  proof (intro allI impI)
    fix c' arr assume a: "cellObjects s' c' = Some arr"
    show "0 \<le> c' \<and> c' < 9 \<and> arr \<noteq> [] \<and> distinct arr"
    proof (cases "c' = c")
      case False
      then have "cellObjects s c' = Some arr" using a s' by simp
      then show ?thesis using assms(2) by (simp add: cellsWellFormed_def)
    next
      case True
      then have arr: "arr = (case cellObjects s c of None \<Rightarrow> [] | Some a \<Rightarrow> a) @ [element r]"
        using a s' by simp
      show ?thesis
      proof (cases "cellObjects s c")
        case None then show ?thesis using arr rng True by simp
      next
        case (Some a0)
        then have "distinct a0" using assms(2) by (simp add: cellsWellFormed_def)
        moreover have "element r \<notin> set a0" using n Some by (simp add: inCell_def)
        ultimately show ?thesis using arr rng True Some by simp
      qed
    qed
  qed
qed

lemma initial_cells:
  "cellObjects initialController = [0 \<mapsto> [0], 4 \<mapsto> [1]]"
  "heldObjects initialController = Map.empty"
  by (simp_all add: initialController_def emptyController_def)

lemma inCell_initial: "inCell initialController c e \<longleftrightarrow> (c = 0 \<and> e = 0) \<or> (c = 4 \<and> e = 1)"
  by (simp add: inCell_def initial_cells)

lemma heldBy_initial: "\<not> heldBy initialController h e"
  by (simp add: heldBy_def initial_cells)

lemma ownership_initial: "ownership initialController"
  unfolding ownership_def inCell_initial objects_def
  using heldBy_initial by auto

lemma wf_initial: "cellsWellFormed initialController"
  unfolding cellsWellFormed_def initial_cells
  by (auto split: if_splits)

lemma inCell_flip: "inCell (updateHeldObjectFlip s h hnd) = inCell s"
  by (auto simp: fun_eq_iff inCell_def updateHeldObjectFlip_def Let_def split: option.splits)

lemma heldBy_flip: "heldBy (updateHeldObjectFlip s h hnd) = heldBy s"
  by (auto simp: fun_eq_iff heldBy_def updateHeldObjectFlip_def Let_def split: option.splits)

lemma cells_flip: "cellObjects (updateHeldObjectFlip s h hnd) = cellObjects s"
  by (auto simp: updateHeldObjectFlip_def Let_def split: option.splits)

lemma processHand_FIST:
  "gtype g = FIST \<Longrightarrow>
   processHand s h hnd g =
     Inr (if heldObjects s h = None \<and> 0 \<le> getCellIndex (lm_x (palmCenter g)) (lm_y (palmCenter g)) \<and>
             (\<exists>arr. cellObjects s (getCellIndex (lm_x (palmCenter g)) (lm_y (palmCenter g))) = Some arr \<and> arr \<noteq> [])
          then grabObject s h (getCellIndex (lm_x (palmCenter g)) (lm_y (palmCenter g))) hnd else s)"
  by (simp add: processHand_def Let_def split: option.splits)

lemma processHand_OPEN:
  "gtype g = OPEN \<Longrightarrow>
   processHand s h hnd g =
     (if heldObjects s h \<noteq> None \<and> 0 \<le> getCellIndex (lm_x (palmCenter g)) (lm_y (palmCenter g)) \<and>
         getCellIndex (lm_x (palmCenter g)) (lm_y (palmCenter g)) < 9
      then dropObject s h (getCellIndex (lm_x (palmCenter g)) (lm_y (palmCenter g))) else Inr s)"
  by (simp add: processHand_def Let_def)

lemma processHand_other:
  "gtype g \<noteq> FIST \<Longrightarrow> gtype g \<noteq> OPEN \<Longrightarrow> processHand s h hnd g = Inr s"
  by (simp add: processHand_def Let_def)

lemma processHand_cases:
  assumes "processHand s h hnd g = Inr s'"
  obtains (same) "s' = s"
  | (grab) arr where "gtype g = FIST" "heldObjects s h = None"
      "cellObjects s (getCellIndex (lm_x (palmCenter g)) (lm_y (palmCenter g))) = Some arr" "arr \<noteq> []"
      "s' = grabObject s h (getCellIndex (lm_x (palmCenter g)) (lm_y (palmCenter g))) hnd"
  | (drop) "gtype g = OPEN" "heldObjects s h \<noteq> None"
      "dropObject s h (getCellIndex (lm_x (palmCenter g)) (lm_y (palmCenter g))) = Inr s'"
proof (cases "gtype g = FIST")
  case True
  let ?c = "getCellIndex (lm_x (palmCenter g)) (lm_y (palmCenter g))"
  let ?fires = "heldObjects s h = None \<and> 0 \<le> ?c \<and> (\<exists>arr. cellObjects s ?c = Some arr \<and> arr \<noteq> [])"
  have eq: "s' = (if ?fires then grabObject s h ?c hnd else s)"
    using assms processHand_FIST[OF True, of s h hnd] by simp
  show ?thesis
  proof (cases ?fires)
    case f: True
    then obtain arr where arr: "cellObjects s ?c = Some arr" "arr \<noteq> []" by blast
    have hn: "heldObjects s h = None" using f by simp
    have i: "(if ?fires then grabObject s h ?c hnd else s) = grabObject s h ?c hnd"
      by (rule if_P[OF f])
    have "s' = grabObject s h ?c hnd" by (rule trans[OF eq i])
    then show ?thesis by (rule grab[OF True hn arr])
  next
    case f: False
    have i: "(if ?fires then grabObject s h ?c hnd else s) = s"
      by (rule if_not_P[OF f])
    have "s' = s" by (rule trans[OF eq i])
    then show ?thesis by (rule same)
  qed
next
  case False
  show ?thesis
  proof (cases "gtype g = OPEN")
    case True
    let ?c = "getCellIndex (lm_x (palmCenter g)) (lm_y (palmCenter g))"
    show ?thesis
    proof (cases "heldObjects s h \<noteq> None \<and> 0 \<le> ?c \<and> ?c < 9")
      case d: True
      then have hn: "heldObjects s h \<noteq> None" by simp
      have "dropObject s h ?c = Inr s'"
        using d assms processHand_OPEN[OF True, of s h hnd] by simp
      then show ?thesis by (rule drop[OF True hn])
    next
      case d: False
      then have "s' = s" using assms processHand_OPEN[OF True, of s h hnd] by auto
      then show ?thesis by (rule same)
    qed
  next
    case F2: False
    have "s' = s" using assms processHand_other[OF False F2, of s h hnd] by simp
    then show ?thesis by (rule same)
  qed
qed

lemma invariant_step:
  assumes "ownership s \<and> cellsWellFormed s" "processHand s h hnd g = Inr s'"
  shows "ownership s' \<and> cellsWellFormed s'"
  using assms(2)
proof (cases rule: processHand_cases)
  case same then show ?thesis using assms(1) by simp
next
  case (grab arr)
  then show ?thesis using assms(1) ownership_grab wf_grab by blast
next
  case drop
  then show ?thesis using assms(1) ownership_drop wf_drop by blast
qed

lemma reachable_invariant: "reachable s \<Longrightarrow> ownership s \<and> cellsWellFormed s"
proof (induction rule: reachable.induct)
  case start
  show ?case using ownership_initial wf_initial by simp
next
  case (frame s handIndex hnd g s')
  then show ?case using invariant_step by blast
next
  case (flip s handIndex hnd)
  then show ?case
    by (simp add: ownership_def cellsWellFormed_def inCell_flip heldBy_flip cells_flip)
qed

lemma ownership_imp_invariant:
  assumes "ownership s" "cellsWellFormed s"
  shows "ownershipInvariant s"
proof -
  have o1: "\<And>c1 c2 e. inCell s c1 e \<Longrightarrow> inCell s c2 e \<Longrightarrow> c1 = c2"
   and o2: "\<And>h1 h2 e. heldBy s h1 e \<Longrightarrow> heldBy s h2 e \<Longrightarrow> h1 = h2"
   and o3: "\<And>c h e. inCell s c e \<Longrightarrow> \<not> heldBy s h e"
   and o4: "\<And>e. e \<in> objects \<longleftrightarrow> (\<exists>c. inCell s c e) \<or> (\<exists>h. heldBy s h e)"
    using assms(1) unfolding ownership_def by blast+
  have a: "\<forall>e\<in>objects.
         ((\<exists>!c. inCell s c e) \<and> \<not> (\<exists>h. heldBy s h e)) \<or>
         ((\<exists>!h. heldBy s h e) \<and> \<not> (\<exists>c. inCell s c e))"
  proof
    fix e assume "e \<in> objects"
    then consider c where "inCell s c e" | h where "heldBy s h e" using o4 by blast
    then show "((\<exists>!c. inCell s c e) \<and> \<not> (\<exists>h. heldBy s h e)) \<or>
         ((\<exists>!h. heldBy s h e) \<and> \<not> (\<exists>c. inCell s c e))"
    proof cases
      case 1 then show ?thesis using o1 o3 by blast
    next
      case 2 then show ?thesis using o2 o3 by blast
    qed
  qed
  have b: "\<forall>c arr. cellObjects s c = Some arr \<longrightarrow> distinct arr"
    using assms(2) by (simp add: cellsWellFormed_def)
  have c: "\<forall>h e1 e2. heldBy s h e1 \<and> heldBy s h e2 \<longrightarrow> e1 = e2"
    by (auto simp: heldBy_def split: option.splits)
  have d: "\<forall>c h e. heldBy s h e \<longrightarrow> \<not> inCell s c e" using o3 by blast
  show ?thesis unfolding ownershipInvariant_def using a b c d by blast
qed

text \<open>
  Claim C1. In every state reached from the initial placement by grab, drop and flip
  updates, each object is either in exactly one cell's array or held by exactly one hand
  slot, never both and never neither; no array lists an object twice; a hand slot holds
  at most one object; and no cell's array contains an object that is held.
\<close>

theorem ownership_invariant_reachable: "reachable s \<Longrightarrow> ownershipInvariant s"
  using reachable_invariant ownership_imp_invariant by blast

theorem ownership_invariant_reachable_witness:
  "ownershipInvariant (grabObject initialController 0 0 sampleHand)"
proof -
  have "processHand initialController 0 sampleHand (fistAt (9/10) (1/10)) =
     Inr (grabObject initialController 0 0 sampleHand)"
    by (simp add: processHand_FIST fistAt_def getCellIndex_samples initial_cells)
  then have "reachable (grabObject initialController 0 0 sampleHand)"
    using reachable.frame[OF reachable.start] by blast
  then show ?thesis by (rule ownership_invariant_reachable)
qed

lemma grabObject_effect:
  assumes "cellObjects s c = Some arr" "arr \<noteq> []"
  shows "cellObjects (grabObject s h c hnd) =
           (cellObjects s)(c := (if butlast arr = [] then None else Some (butlast arr)))"
    and "heldObjects (grabObject s h c hnd) =
           (heldObjects s)(h \<mapsto>
              \<lparr>element = last arr, fromCellIndex = c, grabAngle = getPalmAngle (landmarks hnd),
               grabNormalZ = (case worldLandmarks hnd of None \<Rightarrow> None
                              | Some wl \<Rightarrow> getPalmNormalZ wl),
               grabWasBack = (last arr \<in> flipped s), isBack = (last arr \<in> flipped s)\<rparr>)"
    and "flipped (grabObject s h c hnd) = flipped s"
  using assms by (simp_all add: grabObject_def Let_def)

lemma grabObject_held:
  assumes "cellObjects s c = Some arr" "arr \<noteq> []"
  shows "\<exists>r. heldObjects (grabObject s h c hnd) = (heldObjects s)(h \<mapsto> r) \<and>
             element r = last arr \<and> fromCellIndex r = c"
  unfolding grabObject_effect(2)[OF assms] by (rule exI, intro conjI, rule refl) simp_all

lemma processHand_total: "\<exists>s'. processHand s h hnd g = Inr s'"
proof (cases "gtype g = FIST")
  case True then show ?thesis by (simp add: processHand_FIST)
next
  case False
  show ?thesis
  proof (cases "gtype g = OPEN")
    case True
    then show ?thesis
      by (auto simp: processHand_OPEN dropObject_def gridCellCount_def Let_def)
  next
    case F2: False
    show ?thesis by (simp add: processHand_other[OF False F2])
  qed
qed

text \<open>A whole pass of \<^verbatim>\<open>processHands\<close> returns and stays within the reachable states.\<close>

lemma processHandsFrom_reachable:
  "reachable s \<Longrightarrow> \<exists>s'. processHandsFrom s i hands = Inr s' \<and> reachable s'"
proof (induction hands arbitrary: s i)
  case Nil
  then show ?case by simp
next
  case (Cons a rest)
  obtain hnd g where a: "a = (hnd, g)" by (cases a)
  obtain s1 where s1: "processHand s i hnd g = Inr s1" using processHand_total by blast
  then have "reachable s1" using Cons.prems reachable.frame by blast
  then obtain s' where "processHandsFrom s1 (Suc i) rest = Inr s'" "reachable s'"
    using Cons.IH by blast
  then show ?case using a s1 by simp
qed

lemma processHands_reachable:
  "reachable s \<Longrightarrow> \<exists>s'. processHands s hands = Inr s' \<and> reachable s'"
  unfolding processHands_def by (rule processHandsFrom_reachable)

text \<open>
  Claim C2, as the code has it. One pass of the loop body always returns. A grab (the
  hand slot goes from holding nothing to holding an object) happens in it exactly when
  the emitted gesture type of this frame is FIST, whatever it was in the frame before,
  the hand slot holds nothing, the palm-centre cell index is valid (0..8) and that
  cell's array is non-empty. Its effect is to pop the last element of that array, to
  delete the cell's entry when the array becomes empty, and to store the popped
  element as the object held by this hand slot.
\<close>

theorem grab_transition:
  "\<exists>s'. processHand s h hnd g = Inr s' \<and>
     ((heldObjects s h = None \<and> heldObjects s' h \<noteq> None) \<longleftrightarrow>
        (gtype g = FIST \<and> heldObjects s h = None \<and> 0 \<le> cellOf g \<and> cellOf g \<le> 8 \<and>
         (\<exists>arr. cellObjects s (cellOf g) = Some arr \<and> arr \<noteq> []))) \<and>
     (heldObjects s h = None \<and> heldObjects s' h \<noteq> None \<longrightarrow>
        (\<exists>arr r. cellObjects s (cellOf g) = Some arr \<and>
           cellObjects s' =
             (cellObjects s)(cellOf g := (if butlast arr = [] then None else Some (butlast arr))) \<and>
           heldObjects s' = (heldObjects s)(h \<mapsto> r) \<and>
           element r = last arr \<and> fromCellIndex r = cellOf g))"
proof -
  obtain s' where s': "processHand s h hnd g = Inr s'" using processHand_total by blast
  let ?fires = "gtype g = FIST \<and> heldObjects s h = None \<and> 0 \<le> cellOf g \<and> cellOf g \<le> 8 \<and>
         (\<exists>arr. cellObjects s (cellOf g) = Some arr \<and> arr \<noteq> [])"
  let ?effect = "\<exists>arr r. cellObjects s (cellOf g) = Some arr \<and>
           cellObjects s' =
             (cellObjects s)(cellOf g := (if butlast arr = [] then None else Some (butlast arr))) \<and>
           heldObjects s' = (heldObjects s)(h \<mapsto> r) \<and>
           element r = last arr \<and> fromCellIndex r = cellOf g"
  have rng: "0 \<le> cellOf g \<Longrightarrow> cellOf g \<le> 8"
    using getCellIndex_range[of "lm_x (palmCenter g)" "lm_y (palmCenter g)"] by linarith
  have "((heldObjects s h = None \<and> heldObjects s' h \<noteq> None) \<longleftrightarrow> ?fires) \<and>
        (heldObjects s h = None \<and> heldObjects s' h \<noteq> None \<longrightarrow> ?effect)"
    using s'
  proof (cases rule: processHand_cases)
    case same
    have nf: "\<not> ?fires"
    proof
      assume f: ?fires
      then obtain arr where arr: "cellObjects s (cellOf g) = Some arr" "arr \<noteq> []" by blast
      have "s' = grabObject s h (cellOf g) hnd"
        using s' f by (simp add: processHand_FIST)
      then have "heldObjects s' h \<noteq> None" using grabObject_held[OF arr, of h hnd] by auto
      then show False using same f by simp
    qed
    show ?thesis using same nf by auto
  next
    case (grab arr)
    have e: ?effect
      using grabObject_effect(1)[OF grab(3,4), of h hnd] grabObject_held[OF grab(3,4), of h hnd]
        grab(3,5) by auto
    then have "heldObjects s' h \<noteq> None" by auto
    moreover have "0 \<le> cellOf g"
    proof (rule ccontr)
      assume "\<not> 0 \<le> cellOf g"
      then have "s' = s" using s' grab(1) by (simp add: processHand_FIST)
      then show False using grab(2) \<open>heldObjects s' h \<noteq> None\<close> by simp
    qed
    ultimately show ?thesis using grab e rng by blast
  next
    case drop
    then have "heldObjects s h \<noteq> None \<and> gtype g \<noteq> FIST" by simp
    then show ?thesis by blast
  qed
  then show ?thesis using s' by blast
qed

theorem grab_transition_witness:
  "heldObjects initialController 0 = None \<and>
   (\<exists>s'. processHand initialController 0 sampleHand (fistAt (9/10) (1/10)) = Inr s' \<and>
      cellObjects s' = [4 \<mapsto> [1]] \<and> (\<exists>r. heldObjects s' 0 = Some r \<and> element r = 0))"
proof -
  let ?g = "fistAt (9/10) (1/10)"
  have c: "cellOf ?g = 0" by (simp add: fistAt_def getCellIndex_samples)
  have t: "gtype ?g = FIST" by (simp add: fistAt_def)
  have h0: "heldObjects initialController 0 = None" by (simp add: initial_cells)
  have c0: "cellObjects initialController 0 = Some [0]" by (simp add: initial_cells)
  obtain s' where s': "processHand initialController 0 sampleHand ?g = Inr s'"
    and iff: "(heldObjects initialController 0 = None \<and> heldObjects s' 0 \<noteq> None) \<longleftrightarrow>
        (gtype ?g = FIST \<and> heldObjects initialController 0 = None \<and> 0 \<le> cellOf ?g \<and> cellOf ?g \<le> 8 \<and>
         (\<exists>arr. cellObjects initialController (cellOf ?g) = Some arr \<and> arr \<noteq> []))"
    and eff: "heldObjects initialController 0 = None \<and> heldObjects s' 0 \<noteq> None \<longrightarrow>
        (\<exists>arr r. cellObjects initialController (cellOf ?g) = Some arr \<and>
           cellObjects s' =
             (cellObjects initialController)(cellOf ?g := (if butlast arr = [] then None else Some (butlast arr))) \<and>
           heldObjects s' = (heldObjects initialController)(0 \<mapsto> r) \<and>
           element r = last arr \<and> fromCellIndex r = cellOf ?g)"
    using grab_transition[of initialController 0 sampleHand ?g] by blast
  have fired: "heldObjects initialController 0 = None \<and> heldObjects s' 0 \<noteq> None"
    using iff t h0 c c0 by simp
  then obtain arr r where "cellObjects initialController (cellOf ?g) = Some arr"
     "cellObjects s' =
             (cellObjects initialController)(cellOf ?g := (if butlast arr = [] then None else Some (butlast arr)))"
     "heldObjects s' = (heldObjects initialController)(0 \<mapsto> r)" "element r = last arr"
    using eff by blast
  then have "cellObjects s' = [4 \<mapsto> [1]] \<and> (\<exists>r. heldObjects s' 0 = Some r \<and> element r = 0)"
    using c c0 by (auto simp: initial_cells)
  then show ?thesis using h0 s' by blast
qed

text \<open>
  The claim as stated asks for a transition into FIST. Two successive frames of hand 0
  both emit FIST: in the first the palm is over the empty cell 1 and nothing is grabbed,
  in the second it is over cell 0 and the grab fires, although the type was FIST before.
\<close>

theorem grab_without_transition_counterexample:
  "processHand initialController 0 sampleHand (fistAt (1/2) (1/10)) = Inr initialController \<and>
   heldObjects initialController 0 = None \<and>
   processHand initialController 0 sampleHand (fistAt (9/10) (1/10)) =
     Inr (grabObject initialController 0 0 sampleHand) \<and>
   map_option element (heldObjects (grabObject initialController 0 0 sampleHand) 0) = Some 0"
  by (simp add: processHand_FIST fistAt_def getCellIndex_samples initial_cells grabObject_def Let_def)

text \<open>
  Claim C8. In every reachable state, when an empty hand grabs the top object of a cell
  (FIST over the cell) and then drops it over the same cell (OPEN), both steps return,
  the object is held in between, and afterwards every cell's array, hence the set of
  objects resting in each cell, is what it was before the grab; the grabbed object is
  back in its original cell.
\<close>

theorem grab_drop_round_trip:
  assumes "reachable s" "heldObjects s h = None" "cellObjects s c = Some arr"
    and "gtype g1 = FIST" "cellOf g1 = c" "gtype g2 = OPEN" "cellOf g2 = c"
  shows "\<exists>s1 s2. processHand s h hnd1 g1 = Inr s1 \<and> heldBy s1 h (last arr) \<and>
           \<not> inCell s1 c (last arr) \<and>
           processHand s1 h hnd2 g2 = Inr s2 \<and>
           cellObjects s2 = cellObjects s \<and> heldObjects s2 = heldObjects s \<and>
           (\<forall>c' e. inCell s2 c' e \<longleftrightarrow> inCell s c' e) \<and> inCell s2 c (last arr)"
proof -
  have wf: "cellsWellFormed s" using reachable_invariant[OF assms(1)] by simp
  then have arr: "arr \<noteq> []" "distinct arr" and c: "0 \<le> c" "c < 9"
    using assms(3) by (auto simp: cellsWellFormed_def)
  let ?s1 = "grabObject s h c hnd1"
  have p1: "processHand s h hnd1 g1 = Inr ?s1"
    using assms(2,3,4,5) arr c by (simp add: processHand_FIST)
  obtain r where r: "heldObjects ?s1 = (heldObjects s)(h \<mapsto> r)" "element r = last arr"
    using grabObject_held[OF assms(3) arr(1), of h hnd1] by blast
  have c1: "cellObjects ?s1 = (cellObjects s)(c := (if butlast arr = [] then None else Some (butlast arr)))"
    using grabObject_effect(1)[OF assms(3) arr(1)] by simp
  have hb: "heldBy ?s1 h (last arr)" using r by (simp add: heldBy_def)
  have nic: "\<not> inCell ?s1 c (last arr)"
    using inCell_grab[OF assms(3) arr, of h hnd1 c "last arr"] by simp
  let ?s2 = "?s1\<lparr>cellObjects := (cellObjects ?s1)(c \<mapsto> (case cellObjects ?s1 c of None \<Rightarrow> [] | Some a \<Rightarrow> a) @ [element r]),
                      heldObjects := (heldObjects ?s1)(h := None)\<rparr>"
  have d: "dropObject ?s1 h c = Inr ?s2"
    using r c by (simp add: dropObject_def gridCellCount_def Let_def)
  have p2: "processHand ?s1 h hnd2 g2 = Inr ?s2"
    using d r c assms(6,7) by (simp add: processHand_OPEN)
  have "(case cellObjects ?s1 c of None \<Rightarrow> [] | Some a \<Rightarrow> a) = butlast arr"
    unfolding c1 by simp
  then have "(case cellObjects ?s1 c of None \<Rightarrow> [] | Some a \<Rightarrow> a) @ [element r] = arr"
    using r(2) append_butlast_last_id[OF arr(1)] by simp
  then have cells: "cellObjects ?s2 = cellObjects s"
    using c1 assms(3) by (simp add: fun_upd_idem)
  have helds: "heldObjects ?s2 = heldObjects s"
    using r(1) assms(2) by (simp add: fun_upd_idem)
  have same: "\<forall>c' e. inCell ?s2 c' e \<longleftrightarrow> inCell s c' e"
    unfolding inCell_def cells by simp
  have top: "inCell ?s2 c (last arr)"
    unfolding inCell_def cells using assms(3) arr(1) by simp
  show ?thesis using p1 hb nic p2 cells helds same top by blast
qed

theorem grab_drop_round_trip_witness:
  "\<exists>s1 s2. processHand initialController 0 sampleHand (fistAt (9/10) (1/10)) = Inr s1 \<and>
       processHand s1 0 sampleHand (openAt (9/10) (1/10)) = Inr s2 \<and>
       heldBy s1 0 0 \<and> cellObjects s2 = [0 \<mapsto> [0], 4 \<mapsto> [1]]"
  using grab_drop_round_trip[OF reachable.start, of 0 0 "[0]" "fistAt (9/10) (1/10)"
           "openAt (9/10) (1/10)" sampleHand sampleHand]
  by (simp add: initial_cells fistAt_def openAt_def getCellIndex_samples) blast

section \<open>Properties of the flip tracking\<close>

lemma wrapDown_le: "wrapDown d \<le> pi"
  by (induction d rule: wrapDown.induct) (subst wrapDown.simps, simp)

lemma wrapDown_lower: "wrapDown d = d \<or> - pi < wrapDown d"
proof (induction d rule: wrapDown.induct)
  case (1 d)
  show ?case
  proof (cases "pi < d")
    case True
    then have "wrapDown d = wrapDown (d - 2 * pi)" by (subst wrapDown.simps) simp
    moreover have "- pi < d - 2 * pi" using True by simp
    ultimately show ?thesis using 1[OF True] by auto
  next
    case False
    then show ?thesis by (subst wrapDown.simps) simp
  qed
qed

lemma wrapUp_ge: "- pi \<le> wrapUp d"
  by (induction d rule: wrapUp.induct) (subst wrapUp.simps, simp)

lemma wrapUp_upper: "wrapUp d = d \<or> wrapUp d < pi"
proof (induction d rule: wrapUp.induct)
  case (1 d)
  show ?case
  proof (cases "d < - pi")
    case True
    then have "wrapUp d = wrapUp (d + 2 * pi)" by (subst wrapUp.simps) simp
    moreover have "d + 2 * pi < pi" using True by simp
    ultimately show ?thesis using 1[OF True] by auto
  next
    case False
    then show ?thesis by (subst wrapUp.simps) simp
  qed
qed

lemma wrapDown_shift: "\<exists>n::nat. wrapDown d = d - 2 * pi * real n"
proof (induction d rule: wrapDown.induct)
  case (1 d)
  show ?case
  proof (cases "pi < d")
    case True
    then have e: "wrapDown d = wrapDown (d - 2 * pi)" by (subst wrapDown.simps) simp
    obtain n :: nat where "wrapDown (d - 2 * pi) = d - 2 * pi - 2 * pi * real n"
      using 1[OF True] by blast
    then have "wrapDown d = d - 2 * pi * real (Suc n)" using e by (simp add: algebra_simps)
    then show ?thesis by blast
  next
    case False
    then have "wrapDown d = d - 2 * pi * real (0::nat)" by (subst wrapDown.simps) simp
    then show ?thesis by blast
  qed
qed

lemma wrapUp_shift: "\<exists>n::nat. wrapUp d = d + 2 * pi * real n"
proof (induction d rule: wrapUp.induct)
  case (1 d)
  show ?case
  proof (cases "d < - pi")
    case True
    then have e: "wrapUp d = wrapUp (d + 2 * pi)" by (subst wrapUp.simps) simp
    obtain n :: nat where "wrapUp (d + 2 * pi) = d + 2 * pi + 2 * pi * real n"
      using 1[OF True] by blast
    then have "wrapUp d = d + 2 * pi * real (Suc n)" using e by (simp add: algebra_simps)
    then show ?thesis by blast
  next
    case False
    then have "wrapUp d = d + 2 * pi * real (0::nat)" by (subst wrapUp.simps) simp
    then show ?thesis by blast
  qed
qed

lemma wrapAngle_range: "- pi \<le> wrapAngle d \<and> wrapAngle d \<le> pi"
  unfolding wrapAngle_def
  using wrapUp_ge[of "wrapDown d"] wrapUp_upper[of "wrapDown d"] wrapDown_le[of d] by linarith

lemma wrapAngle_shift: "\<exists>k::int. wrapAngle d = d + 2 * pi * of_int k"
proof -
  obtain n :: nat where n: "wrapDown d = d - 2 * pi * real n" using wrapDown_shift by blast
  obtain m :: nat where m: "wrapUp (wrapDown d) = wrapDown d + 2 * pi * real m"
    using wrapUp_shift by blast
  have "wrapAngle d = wrapDown d + 2 * pi * real m" by (simp add: wrapAngle_def m)
  also have "\<dots> = d - 2 * pi * real n + 2 * pi * real m" by (simp only: n)
  also have "\<dots> = d + 2 * pi * of_int (int m - int n)" by (simp add: algebra_simps)
  finally have "wrapAngle d = d + 2 * pi * of_int (int m - int n)" .
  then show ?thesis by blast
qed

lemma wrapAngle_id: "- pi \<le> d \<Longrightarrow> d \<le> pi \<Longrightarrow> wrapAngle d = d"
  unfolding wrapAngle_def by (subst wrapDown.simps, simp, subst wrapUp.simps, simp)

lemma computeIsBack_normal:
  assumes "worldLandmarks hnd = Some wl" "18 \<le> length wl" "grabNormalZ held = Some grabZ"
  shows "computeIsBack held hnd =
     ((((lm_x (wl ! 5) - lm_x (wl ! 0)) * (lm_y (wl ! 17) - lm_y (wl ! 0)) -
        (lm_y (wl ! 5) - lm_y (wl ! 0)) * (lm_x (wl ! 17) - lm_x (wl ! 0))) * grabZ < 0)
      \<noteq> grabWasBack held)"
  using assms by (simp add: computeIsBack_def getPalmNormalZ_def Let_def)

lemma computeIsBack_angle:
  assumes "grabNormalZ held = None"
  shows "computeIsBack held hnd =
     ((pi / 6 < \<bar>wrapAngle (getPalmAngle (landmarks hnd) - grabAngle held)\<bar>) \<noteq> grabWasBack held)"
  using assms by (simp add: computeIsBack_def Let_def split: option.splits)

lemma display_grab:
  assumes "displayConsistent s" "cellObjects s c = Some arr" "arr \<noteq> []"
  shows "displayConsistent (grabObject s h c hnd)"
  using assms(1) unfolding displayConsistent_def
    grabObject_effect(2)[OF assms(2,3)] grabObject_effect(3)[OF assms(2,3)]
  by auto

lemma display_drop:
  assumes "displayConsistent s" "dropObject s h c = Inr s'"
  shows "displayConsistent s'"
  using assms unfolding displayConsistent_def dropObject_def Let_def
  by (auto split: option.splits if_splits)

lemma display_flip:
  assumes "displayConsistent s" "ownership s"
  shows "displayConsistent (updateHeldObjectFlip s h hnd)"
proof (cases "heldObjects s h")
  case None
  then show ?thesis using assms(1) by (simp add: updateHeldObjectFlip_def)
next
  case (Some held)
  have uniq: "\<And>h' r. heldObjects s h' = Some r \<Longrightarrow> h' \<noteq> h \<Longrightarrow> element r \<noteq> element held"
  proof
    fix h' r assume a: "heldObjects s h' = Some r" "h' \<noteq> h" "element r = element held"
    have "heldBy s h' (element held)" "heldBy s h (element held)"
      using a Some by (simp_all add: heldBy_def)
    then have "h' = h" using assms(2) unfolding ownership_def by blast
    then show False using a(2) by simp
  qed
  show ?thesis
  proof (cases "computeIsBack held hnd \<noteq> isBack held")
    case False
    then show ?thesis using assms(1) Some by (simp add: updateHeldObjectFlip_def)
  next
    case True
    let ?b = "computeIsBack held hnd"
    have s': "updateHeldObjectFlip s h hnd =
        s\<lparr>heldObjects := (heldObjects s)(h \<mapsto> held\<lparr>isBack := ?b\<rparr>),
          flipped := (if ?b then insert (element held) (flipped s) else flipped s - {element held})\<rparr>"
      using Some True by (simp add: updateHeldObjectFlip_def Let_def)
    show ?thesis unfolding displayConsistent_def
    proof (intro allI impI)
      fix h' r assume a: "heldObjects (updateHeldObjectFlip s h hnd) h' = Some r"
      show "isBack r \<longleftrightarrow> element r \<in> flipped (updateHeldObjectFlip s h hnd)"
      proof (cases "h' = h")
        case True
        then have "r = held\<lparr>isBack := ?b\<rparr>" using a s' by simp
        then show ?thesis unfolding s' by simp
      next
        case False
        then have r: "heldObjects s h' = Some r" using a s' by simp
        then have "isBack r \<longleftrightarrow> element r \<in> flipped s"
          using assms(1) by (simp add: displayConsistent_def)
        moreover have "element r \<noteq> element held" using uniq[OF r False] .
        ultimately show ?thesis unfolding s' by simp
      qed
    qed
  qed
qed

lemma reachable_display: "reachable s \<Longrightarrow> displayConsistent s"
proof (induction rule: reachable.induct)
  case start
  show ?case by (simp add: displayConsistent_def initial_cells)
next
  case (frame s handIndex hnd g s')
  from frame(2) show ?case
  proof (cases rule: processHand_cases)
    case same then show ?thesis using frame(3) by simp
  next
    case (grab arr) then show ?thesis using frame(3) display_grab by blast
  next
    case drop then show ?thesis using frame(3) display_drop by blast
  qed
next
  case (flip s handIndex hnd)
  then show ?case using display_flip reachable_invariant by blast
qed

lemma updateHeldObjectFlip_display:
  assumes "displayConsistent s" "heldObjects s h = Some held"
  shows "\<exists>held'. heldObjects (updateHeldObjectFlip s h hnd) h = Some held' \<and>
           element held' = element held \<and>
           isBack held' = computeIsBack held hnd \<and>
           (element held' \<in> flipped (updateHeldObjectFlip s h hnd)) = computeIsBack held hnd"
proof (cases "computeIsBack held hnd \<noteq> isBack held")
  case True
  then show ?thesis using assms(2) by (simp add: updateHeldObjectFlip_def Let_def)
next
  case False
  then have "updateHeldObjectFlip s h hnd = s" using assms(2)
    by (simp add: updateHeldObjectFlip_def Let_def)
  moreover have "isBack held \<longleftrightarrow> element held \<in> flipped s"
    using assms by (simp add: displayConsistent_def)
  ultimately show ?thesis using assms(2) False by simp
qed

text \<open>
  Claim C3, as the code has it. While a hand slot holds an object in a reachable state:
  if the grab snapshot has a normal z and the hand of this frame has world landmarks,
  the hand counts as flipped exactly when \<open>currentNormalZ * grabNormalZ < 0\<close>, the normal z
  being \<open>ax * by - ay * bx\<close> of the wrist, index-MCP and pinky-MCP world landmarks, and
  the flip state is \<open>handFlipped XOR grabWasBack\<close>; the 2D angle path is the fallback
  whenever the grab snapshot has no normal z (no world landmarks at grab time), also
  when the hand of this frame has world landmarks: the hand counts as rotated when the
  angle difference, wrapped into \<open>[-\<pi>, \<pi>]\<close>, exceeds \<open>\<pi>/6\<close> in absolute value, with the
  same XOR rule. The computed flip state is what is recorded and displayed. A snapshot
  with a normal z met by a frame without usable world landmarks is not part of this
  statement.
\<close>

theorem flip_tracking:
  assumes "reachable s" "heldObjects s h = Some held"
  shows "(\<forall>wl grabZ. worldLandmarks hnd = Some wl \<and> 18 \<le> length wl \<and> grabNormalZ held = Some grabZ \<longrightarrow>
            computeIsBack held hnd =
              ((((lm_x (wl ! 5) - lm_x (wl ! 0)) * (lm_y (wl ! 17) - lm_y (wl ! 0)) -
                 (lm_y (wl ! 5) - lm_y (wl ! 0)) * (lm_x (wl ! 17) - lm_x (wl ! 0))) * grabZ < 0)
               \<noteq> grabWasBack held)) \<and>
         (grabNormalZ held = None \<longrightarrow>
            computeIsBack held hnd =
              ((pi / 6 < \<bar>wrapAngle (getPalmAngle (landmarks hnd) - grabAngle held)\<bar>)
               \<noteq> grabWasBack held)) \<and>
         (\<forall>d. - pi \<le> wrapAngle d \<and> wrapAngle d \<le> pi \<and> (\<exists>k::int. wrapAngle d = d + 2 * pi * of_int k)) \<and>
         (\<exists>held'. heldObjects (updateHeldObjectFlip s h hnd) h = Some held' \<and>
            element held' = element held \<and>
            isBack held' = computeIsBack held hnd \<and>
            (element held' \<in> flipped (updateHeldObjectFlip s h hnd)) = computeIsBack held hnd)"
  using computeIsBack_normal[of hnd _ held] computeIsBack_angle[of held hnd]
    wrapAngle_range wrapAngle_shift
    updateHeldObjectFlip_display[OF reachable_display[OF assms(1)] assms(2), of hnd]
  by blast

lemma handPose_nth:
  "length (handPose w i m p) = 21" "handPose w i m p ! 0 = w" "handPose w i m p ! 5 = i"
  "handPose w i m p ! 9 = m" "handPose w i m p ! 17 = p"
  by (simp_all add: handPose_def)

lemma palm_angles: "getPalmAngle palmUp = 0" "getPalmAngle palmTurned = pi / 2"
  by (simp_all add: getPalmAngle_def palmUp_def palmTurned_def handPose_nth atan2_def)

theorem flip_tracking_witness:
  "\<exists>held'. heldObjects (updateHeldObjectFlip
               (grabObject initialController 0 0 \<lparr>landmarks = palmUp, worldLandmarks = Some palmUp\<rparr>)
               0 \<lparr>landmarks = palmUp, worldLandmarks = Some palmDown\<rparr>) 0 = Some held' \<and>
      element held' = 0 \<and> isBack held' \<and>
      0 \<in> flipped (updateHeldObjectFlip
               (grabObject initialController 0 0 \<lparr>landmarks = palmUp, worldLandmarks = Some palmUp\<rparr>)
               0 \<lparr>landmarks = palmUp, worldLandmarks = Some palmDown\<rparr>)"
proof -
  let ?front = "\<lparr>landmarks = palmUp, worldLandmarks = Some palmUp\<rparr>"
  let ?rear = "\<lparr>landmarks = palmUp, worldLandmarks = Some palmDown\<rparr>"
  let ?s1 = "grabObject initialController 0 0 ?front"
  let ?held = "\<lparr>element = 0, fromCellIndex = 0, grabAngle = 0, grabNormalZ = Some 1,
      grabWasBack = False, isBack = False\<rparr>"
  have "processHand initialController 0 ?front (fistAt (9/10) (1/10)) = Inr ?s1"
    by (simp add: processHand_FIST fistAt_def getCellIndex_samples initial_cells)
  then have r: "reachable ?s1" using reachable.frame[OF reachable.start] by blast
  have h: "heldObjects ?s1 0 = Some ?held"
    by (simp add: grabObject_def initial_cells Let_def palm_angles getPalmNormalZ_def
          palmUp_def[symmetric] initialController_def emptyController_def)
       (simp add: palmUp_def handPose_nth)
  have "computeIsBack ?held ?rear =
     ((((lm_x (palmDown ! 5) - lm_x (palmDown ! 0)) * (lm_y (palmDown ! 17) - lm_y (palmDown ! 0)) -
        (lm_y (palmDown ! 5) - lm_y (palmDown ! 0)) * (lm_x (palmDown ! 17) - lm_x (palmDown ! 0))) * 1 < 0)
      \<noteq> grabWasBack ?held)"
    by (rule computeIsBack_normal) (simp_all add: palmDown_def handPose_nth)
  then have n: "computeIsBack ?held ?rear = True"
    by (simp add: palmDown_def handPose_nth)
  show ?thesis using flip_tracking[OF r h, of ?rear] n by auto
qed

text \<open>
  The claim as stated makes the normal-z path authoritative whenever world landmarks
  are present. An object grabbed by a hand without world landmarks is then tracked by
  two hands with the same world landmarks: the displayed flip state follows the 2D
  angle.
\<close>

theorem angle_path_with_world_landmarks_counterexample:
  "heldObjects (grabObject initialController 0 0 \<lparr>landmarks = palmUp, worldLandmarks = None\<rparr>) 0
     = Some grabbedWithoutWorld \<and>
   computeIsBack grabbedWithoutWorld \<lparr>landmarks = palmUp, worldLandmarks = Some palmUp\<rparr> = False \<and>
   computeIsBack grabbedWithoutWorld \<lparr>landmarks = palmTurned, worldLandmarks = Some palmUp\<rparr> = True"
proof -
  have a: "heldObjects (grabObject initialController 0 0 \<lparr>landmarks = palmUp, worldLandmarks = None\<rparr>) 0
     = Some grabbedWithoutWorld"
    by (simp add: grabObject_def initial_cells Let_def grabbedWithoutWorld_def palm_angles
          initialController_def emptyController_def)
  have w0: "wrapAngle 0 = 0" by (rule wrapAngle_id) simp_all
  have w1: "wrapAngle (pi / 2) = pi / 2" by (rule wrapAngle_id) simp_all
  have b: "computeIsBack grabbedWithoutWorld \<lparr>landmarks = palmUp, worldLandmarks = Some palmUp\<rparr> = False"
    by (simp add: computeIsBack_angle grabbedWithoutWorld_def palm_angles w0)
  have c: "computeIsBack grabbedWithoutWorld \<lparr>landmarks = palmTurned, worldLandmarks = Some palmUp\<rparr> = True"
    by (simp add: computeIsBack_angle grabbedWithoutWorld_def palm_angles w1)
  show ?thesis using a b c by simp
qed

section \<open>Properties of the hysteresis\<close>

lemma cnt_countsAdd: "cnt (countsAdd cs t) u = cnt cs u + (if u = t then 1 else 0)"
  by (induction cs t rule: countsAdd.induct) (auto simp: cnt_def)

lemma keys_countsAdd: "fst ` set (countsAdd cs t) = insert t (fst ` set cs)"
  by (induction cs t rule: countsAdd.induct) auto

lemma distinct_countsAdd: "distinct (map fst cs) \<Longrightarrow> distinct (map fst (countsAdd cs t))"
proof (induction cs t rule: countsAdd.induct)
  case (1 t) then show ?case by simp
next
  case (2 k c rest t)
  then show ?case using keys_countsAdd[of rest t] by (auto simp: image_iff)
qed

lemma counts_foldl:
  "cnt (foldl countsAdd cs xs) u = cnt cs u + count_list xs u"
  by (induction xs arbitrary: cs) (auto simp: cnt_countsAdd)

lemma distinct_foldl:
  "distinct (map fst cs) \<Longrightarrow> distinct (map fst (foldl countsAdd cs xs))"
  by (induction xs arbitrary: cs) (auto simp: distinct_countsAdd)

lemma keys_foldl: "fst ` set (foldl countsAdd cs xs) = fst ` set cs \<union> set xs"
  by (induction xs arbitrary: cs) (auto simp: keys_countsAdd)

lemma counts_entry:
  assumes "(t, c) \<in> set (foldl countsAdd [] xs)"
  shows "c = count_list xs t"
proof -
  have d: "distinct (map fst (foldl countsAdd [] xs))" by (rule distinct_foldl) simp
  have "map_of (foldl countsAdd [] xs) t = Some c" using d assms by simp
  then have "cnt (foldl countsAdd [] xs) t = c" by (simp add: cnt_def)
  then show ?thesis using counts_foldl[of "[]" xs t] by (simp add: cnt_def)
qed

lemma maxEntry_result:
  "maxEntry (m0, t0) cs = (m, t) \<Longrightarrow>
     m0 \<le> m \<and> (\<forall>(k, c) \<in> set cs. c \<le> m) \<and> ((m, t) = (m0, t0) \<or> (t, m) \<in> set cs)"
proof (induction cs arbitrary: m0 t0)
  case Nil then show ?case by simp
next
  case (Cons e cs)
  obtain k c where e: "e = (k, c)" by (cases e)
  show ?case
  proof (cases "m0 < c")
    case True
    then have "maxEntry (c, k) cs = (m, t)" using Cons.prems e by simp
    from Cons.IH[OF this] show ?thesis using True e by auto
  next
    case False
    then have "maxEntry (m0, t0) cs = (m, t)" using Cons.prems e by simp
    from Cons.IH[OF this] show ?thesis using False e by auto
  qed
qed

lemma modal_type:
  assumes "raw \<in> set hist" "maxEntry (0, raw) (foldl countsAdd [] hist) = (m, t)"
  shows "m = count_list hist t" "\<forall>u. count_list hist u \<le> m" "0 < m"
proof -
  let ?cs = "foldl countsAdd [] hist"
  have r: "0 \<le> m" "\<forall>(k, c) \<in> set ?cs. c \<le> m" "(m, t) = (0, raw) \<or> (t, m) \<in> set ?cs"
    using maxEntry_result[OF assms(2)] by auto
  have all: "count_list hist u \<le> m" for u
  proof (cases "u \<in> set hist")
    case False then show ?thesis by simp
  next
    case True
    then have "u \<in> fst ` set ?cs" using keys_foldl[of "[]" hist] by simp
    then obtain c where c: "(u, c) \<in> set ?cs" by auto
    then have "c = count_list hist u" by (rule counts_entry)
    then show ?thesis using r(2) c by auto
  qed
  have "0 < count_list hist raw" using assms(1) count_list_0_iff[of hist raw] by auto
  then show pos: "0 < m" using all[of raw] by linarith
  then have "(t, m) \<in> set ?cs" using r(3) by auto
  then show "m = count_list hist t" by (rule counts_entry)
  show "\<forall>u. count_list hist u \<le> m" using all by blast
qed

lemma applyHysteresis_unfold:
  assumes "maxEntry (0, ctype g) (foldl countsAdd [] (pushHistory rec h (ctype g))) = (m, t)"
  shows "applyHysteresis rec g h =
     (rec\<lparr>gestureHistory := (gestureHistory rec)(h \<mapsto> pushHistory rec h (ctype g)),
          prevGestures := (prevGestures rec)(h \<mapsto> g)\<rparr>,
      if 2 \<le> m then g\<lparr>ctype := t\<rparr> else g)"
proof -
  have "nat \<lceil>real historySize / 2\<rceil> = 2" by (simp add: historySize_def)
  then show ?thesis using assms
    by (simp add: applyHysteresis_def pushHistory_def Let_def)
qed

lemma raw_in_pushHistory: "t \<in> set (pushHistory rec h t)"
proof -
  let ?h0 = "case gestureHistory rec h of None \<Rightarrow> [] | Some x \<Rightarrow> x"
  show ?thesis
  proof (cases ?h0)
    case Nil then show ?thesis by (simp add: pushHistory_def Let_def historySize_def)
  next
    case (Cons a as) then show ?thesis by (simp add: pushHistory_def Let_def)
  qed
qed

lemma length_pushHistory:
  assumes "historyBounded rec"
  shows "length (pushHistory rec h t) \<le> historySize"
proof -
  have "length (case gestureHistory rec h of None \<Rightarrow> [] | Some x \<Rightarrow> x) \<le> historySize"
    using assms by (auto simp: historyBounded_def split: option.splits)
  then show ?thesis by (auto simp: pushHistory_def Let_def)
qed

lemma historyBounded_new: "historyBounded newRecognizer"
  by (simp add: historyBounded_def newRecognizer_def)

lemma historyBounded_step:
  assumes "historyBounded rec"
  shows "historyBounded (fst (applyHysteresis rec g h))"
proof -
  obtain m t where mt: "maxEntry (0, ctype g) (foldl countsAdd [] (pushHistory rec h (ctype g))) = (m, t)"
    by (cases "maxEntry (0, ctype g) (foldl countsAdd [] (pushHistory rec h (ctype g)))")
  show ?thesis
    using assms length_pushHistory[OF assms, of h "ctype g"]
    unfolding applyHysteresis_unfold[OF mt] historyBounded_def by auto
qed

lemma short_list_cases:
  "length xs \<le> 3 \<Longrightarrow>
   xs = [] \<or> (\<exists>a. xs = [a]) \<or> (\<exists>a b. xs = [a, b]) \<or> (\<exists>a b c. xs = [a, b, c])"
  by (auto simp: le_Suc_eq length_Suc_conv numeral_3_eq_3)

lemma push_three:
  assumes "historyBounded rec"
  shows "pushHistory (fst (applyHysteresis (fst (applyHysteresis rec g1 h)) g2 h)) h t3 =
           [ctype g1, ctype g2, t3]"
proof -
  obtain m1 t1 where mt1: "maxEntry (0, ctype g1) (foldl countsAdd [] (pushHistory rec h (ctype g1))) = (m1, t1)"
    by (cases "maxEntry (0, ctype g1) (foldl countsAdd [] (pushHistory rec h (ctype g1)))")
  let ?r1 = "fst (applyHysteresis rec g1 h)"
  obtain m2 t2 where mt2: "maxEntry (0, ctype g2) (foldl countsAdd [] (pushHistory ?r1 h (ctype g2))) = (m2, t2)"
    by (cases "maxEntry (0, ctype g2) (foldl countsAdd [] (pushHistory ?r1 h (ctype g2)))")
  let ?r2 = "fst (applyHysteresis ?r1 g2 h)"
  let ?h0 = "case gestureHistory rec h of None \<Rightarrow> [] | Some x \<Rightarrow> x"
  have h1: "gestureHistory ?r1 h = Some (pushHistory rec h (ctype g1))"
    unfolding applyHysteresis_unfold[OF mt1] by simp
  have h2: "gestureHistory ?r2 h = Some (pushHistory ?r1 h (ctype g2))"
    unfolding applyHysteresis_unfold[OF mt2] by simp
  have len: "length ?h0 \<le> 3"
    using assms by (auto simp: historyBounded_def historySize_def split: option.splits)
  have p1: "pushHistory rec h (ctype g1) = (if length ?h0 < 3 then ?h0 @ [ctype g1] else tl ?h0 @ [ctype g1])"
    using len by (cases ?h0) (auto simp: pushHistory_def Let_def historySize_def)
  consider "?h0 = []" | a where "?h0 = [a]" | a b where "?h0 = [a, b]" | a b c where "?h0 = [a, b, c]"
    using short_list_cases[OF len] by blast
  then show ?thesis
  proof cases
    case 1 then show ?thesis using h1 h2 p1 by (simp add: pushHistory_def Let_def historySize_def)
  next
    case 2 then show ?thesis using h1 h2 p1 by (simp add: pushHistory_def Let_def historySize_def)
  next
    case 3 then show ?thesis using h1 h2 p1 by (simp add: pushHistory_def Let_def historySize_def)
  next
    case 4 then show ?thesis using h1 h2 p1 by (simp add: pushHistory_def Let_def historySize_def)
  qed
qed

lemma pushHistory_drop:
  assumes "historyBounded rec"
  shows "pushHistory rec h t =
     drop (length (case gestureHistory rec h of None \<Rightarrow> [] | Some x \<Rightarrow> x) + 1 - historySize)
          ((case gestureHistory rec h of None \<Rightarrow> [] | Some x \<Rightarrow> x) @ [t])"
proof -
  let ?h0 = "case gestureHistory rec h of None \<Rightarrow> [] | Some x \<Rightarrow> x"
  have len: "length ?h0 \<le> 3"
    using assms by (auto simp: historyBounded_def historySize_def split: option.splits)
  show ?thesis
  proof (cases "length ?h0 = 3")
    case True
    then have "pushHistory rec h t = tl (?h0 @ [t])"
      by (simp add: pushHistory_def Let_def historySize_def)
    moreover have "?h0 \<noteq> []" using True by auto
    ultimately show ?thesis using True by (simp add: historySize_def drop_Suc)
  next
    case False
    then have "length ?h0 < 3" using len by simp
    then show ?thesis by (simp add: pushHistory_def Let_def historySize_def)
  qed
qed

lemma emittedTypes_third:
  "emittedTypes rec h [g1, g2, g3] ! 2 =
     ctype (snd (applyHysteresis (fst (applyHysteresis (fst (applyHysteresis rec g1 h)) g2 h)) g3 h))"
  by (simp add: case_prod_beta)

text \<open>
  Claim C4. For every hand slot whose stored history is at most 3 long (as in every
  state the recognizer reaches), the hysteresis step stores, for that slot only, the
  last 3 entries of the old history followed by the raw type; if some type occurs at
  least \<open>\<lceil>3/2\<rceil> = 2\<close> times in the new buffer, the emitted type is that type, the most
  frequent one; otherwise the raw type is emitted unchanged. The bound on the history
  is kept. Fed the raw sequence FIST, OPEN, FIST, the slot emits FIST on the third
  frame.
\<close>

theorem hysteresis_step:
  assumes "historyBounded rec"
  shows "\<exists>rec' out hist.
     applyHysteresis rec g h = (rec', out) \<and>
     gestureHistory rec' h = Some hist \<and>
     hist = drop (length (case gestureHistory rec h of None \<Rightarrow> [] | Some x \<Rightarrow> x) + 1 - 3)
                 ((case gestureHistory rec h of None \<Rightarrow> [] | Some x \<Rightarrow> x) @ [ctype g]) \<and>
     length hist \<le> 3 \<and>
     (\<forall>h'. h' \<noteq> h \<longrightarrow> gestureHistory rec' h' = gestureHistory rec h') \<and>
     historyBounded rec' \<and>
     confidence out = confidence g \<and>
     ((\<exists>u. 2 \<le> count_list hist u) \<longrightarrow>
        2 \<le> count_list hist (ctype out) \<and> (\<forall>u. count_list hist u \<le> count_list hist (ctype out))) \<and>
     ((\<forall>u. count_list hist u < 2) \<longrightarrow> ctype out = ctype g) \<and>
     emittedTypes rec h [\<lparr>ctype = FIST, confidence = c1\<rparr>, \<lparr>ctype = OPEN, confidence = c2\<rparr>,
                         \<lparr>ctype = FIST, confidence = c3\<rparr>] ! 2 = FIST"
proof -
  let ?hist = "pushHistory rec h (ctype g)"
  obtain m t where mt: "maxEntry (0, ctype g) (foldl countsAdd [] ?hist) = (m, t)"
    by (cases "maxEntry (0, ctype g) (foldl countsAdd [] ?hist)")
  let ?rec' = "rec\<lparr>gestureHistory := (gestureHistory rec)(h \<mapsto> ?hist),
                    prevGestures := (prevGestures rec)(h \<mapsto> g)\<rparr>"
  let ?out = "if 2 \<le> m then g\<lparr>ctype := t\<rparr> else g"
  have ap: "applyHysteresis rec g h = (?rec', ?out)" by (rule applyHysteresis_unfold[OF mt])
  have m: "m = count_list ?hist t" "\<forall>u. count_list ?hist u \<le> m"
    using modal_type[OF raw_in_pushHistory mt] by auto
  have a: "gestureHistory ?rec' h = Some ?hist" by simp
  have b: "?hist = drop (length (case gestureHistory rec h of None \<Rightarrow> [] | Some x \<Rightarrow> x) + 1 - 3)
                 ((case gestureHistory rec h of None \<Rightarrow> [] | Some x \<Rightarrow> x) @ [ctype g])"
    using pushHistory_drop[OF assms, of h "ctype g"] by (simp add: historySize_def)
  have c: "length ?hist \<le> 3" using length_pushHistory[OF assms, of h "ctype g"]
    by (simp add: historySize_def)
  have d: "\<forall>h'. h' \<noteq> h \<longrightarrow> gestureHistory ?rec' h' = gestureHistory rec h'" by simp
  have e: "historyBounded ?rec'" using historyBounded_step[OF assms, of g h] ap by simp
  have f: "confidence ?out = confidence g" by simp
  have g1: "(\<exists>u. 2 \<le> count_list ?hist u) \<longrightarrow>
        2 \<le> count_list ?hist (ctype ?out) \<and> (\<forall>u. count_list ?hist u \<le> count_list ?hist (ctype ?out))"
  proof
    assume "\<exists>u. 2 \<le> count_list ?hist u"
    then have "2 \<le> m" using m(2) by (meson order_trans)
    then show "2 \<le> count_list ?hist (ctype ?out) \<and> (\<forall>u. count_list ?hist u \<le> count_list ?hist (ctype ?out))"
      using m by simp
  qed
  have g2: "(\<forall>u. count_list ?hist u < 2) \<longrightarrow> ctype ?out = ctype g"
  proof
    assume "\<forall>u. count_list ?hist u < 2"
    then have "m < 2" using m(1) by simp
    then show "ctype ?out = ctype g" by simp
  qed
  let ?f1 = "\<lparr>ctype = FIST, confidence = c1\<rparr>" and ?f2 = "\<lparr>ctype = OPEN, confidence = c2\<rparr>"
  let ?f3 = "\<lparr>ctype = FIST, confidence = c3\<rparr>"
  let ?r2 = "fst (applyHysteresis (fst (applyHysteresis rec ?f1 h)) ?f2 h)"
  have p3: "pushHistory ?r2 h (ctype ?f3) = [FIST, OPEN, FIST]"
    using push_three[OF assms, of ?f1 h ?f2 FIST] by simp
  have "maxEntry (0, ctype ?f3) (foldl countsAdd [] (pushHistory ?r2 h (ctype ?f3))) = (2, FIST)"
    unfolding p3 by simp
  then have "ctype (snd (applyHysteresis ?r2 ?f3 h)) = FIST"
    by (simp add: applyHysteresis_unfold)
  then have third: "emittedTypes rec h [?f1, ?f2, ?f3] ! 2 = FIST"
    by (simp only: emittedTypes_third)
  show ?thesis
    using ap a b c d e f g1 g2 third by blast
qed

theorem hysteresis_step_witness:
  "emittedTypes newRecognizer 0
     [\<lparr>ctype = FIST, confidence = 0.9\<rparr>, \<lparr>ctype = OPEN, confidence = 0.9\<rparr>,
      \<lparr>ctype = FIST, confidence = 0.9\<rparr>] ! 2 = FIST"
  using hysteresis_step[OF historyBounded_new, of "\<lparr>ctype = FIST, confidence = 0.9\<rparr>" 0 "0.9" "0.9" "0.9"]
  by blast

section \<open>Properties of the raw classification\<close>

lemma extendedCount_getFingerStates:
  "extendedCount (getFingerStates lms) =
     (if thumb (getFingerStates lms) then 1 else 0) + (if index (getFingerStates lms) then 1 else 0) +
     (if middle (getFingerStates lms) then 1 else 0) + (if ring (getFingerStates lms) then 1 else 0) +
     (if pinky (getFingerStates lms) then 1 else 0)"
  by (simp add: getFingerStates_def Let_def)

lemma prevGestures_recognize:
  assumes "21 \<le> length lms"
  shows "prevGestures (fst (recognize rec lms h)) h = Some (rawClassification rec lms h)"
proof -
  let ?g = "rawClassification rec lms h"
  obtain m t where mt: "maxEntry (0, ctype ?g) (foldl countsAdd [] (pushHistory rec h (ctype ?g))) = (m, t)"
    by (cases "maxEntry (0, ctype ?g) (foldl countsAdd [] (pushHistory rec h (ctype ?g)))")
  show ?thesis using assms by (simp add: recognize_def applyHysteresis_unfold[OF mt])
qed

text \<open>
  Claim C5. For every landmark set with 21 landmarks, with \<open>n\<close> the number of extended
  fingers and the pinch test \<open>distance < 0.10\<close> when the last raw classification of the
  slot was PINCH and \<open>distance < 0.06\<close> otherwise: the raw classification is FIST exactly
  when \<open>n \<le> 1\<close>; PINCH exactly when \<open>n > 1\<close> and the pinch test holds; OPEN exactly when
  neither of these holds and \<open>n \<ge> 4\<close>; PEACE and ROCK exactly when none of these holds
  and the finger shape matches; NONE exactly when no test matches. THUMBS_UP and
  POINTING are tested after FIST and never returned. The raw classification is what
  the next frame reads as the last gesture of the slot.
\<close>

theorem raw_classification:
  assumes "length lms = 21"
  shows "let fs = getFingerStates lms;
             d = getPinchDistance lms;
             n = extendedCount fs;
             wasPinching = (\<exists>g. prevGestures rec h = Some g \<and> ctype g = PINCH);
             pinching = (if wasPinching then d < 0.10 else d < 0.06);
             r = rawClassification rec lms h
         in n = length (filter (\<lambda>v. v) [thumb fs, index fs, middle fs, ring fs, pinky fs]) \<and>
            d = distance2D (lms ! 4) (lms ! 8) \<and>
            (ctype r = FIST \<longleftrightarrow> n \<le> 1) \<and>
            (ctype r = PINCH \<longleftrightarrow> 1 < n \<and> pinching) \<and>
            (ctype r = OPEN \<longleftrightarrow> 1 < n \<and> \<not> pinching \<and> 4 \<le> n) \<and>
            (ctype r = PEACE \<longleftrightarrow>
               1 < n \<and> \<not> pinching \<and> n < 4 \<and> index fs \<and> middle fs \<and> \<not> ring fs \<and> \<not> pinky fs) \<and>
            (ctype r = ROCK \<longleftrightarrow>
               1 < n \<and> \<not> pinching \<and> n < 4 \<and> index fs \<and> \<not> middle fs \<and> \<not> ring fs \<and> pinky fs) \<and>
            ctype r \<noteq> THUMBS_UP \<and> ctype r \<noteq> POINTING \<and>
            (ctype r = NONE \<longleftrightarrow>
               1 < n \<and> \<not> pinching \<and> n < 4 \<and>
               \<not> (index fs \<and> middle fs \<and> \<not> ring fs \<and> \<not> pinky fs) \<and>
               \<not> (index fs \<and> \<not> middle fs \<and> \<not> ring fs \<and> pinky fs)) \<and>
            prevGestures (fst (recognize rec lms h)) h = Some r"
proof -
  let ?fs = "getFingerStates lms"
  let ?n = "extendedCount ?fs"
  let ?d = "getPinchDistance lms"
  let ?was = "\<exists>g. prevGestures rec h = Some g \<and> ctype g = PINCH"
  let ?pinching = "if ?was then ?d < 0.10 else ?d < 0.06"
  let ?r = "rawClassification rec lms h"
  have was: "(case prevGestures rec h of None \<Rightarrow> False | Some g \<Rightarrow> ctype g = PINCH) = ?was"
    by (auto split: option.splits)
  have r: "?r =
     (if ?n \<le> 1 then \<lparr>ctype = FIST, confidence = 0.9\<rparr>
      else if ?pinching then \<lparr>ctype = PINCH, confidence = 0.9\<rparr>
      else if 4 \<le> ?n then \<lparr>ctype = OPEN, confidence = 0.9\<rparr>
      else if index ?fs \<and> middle ?fs \<and> \<not> ring ?fs \<and> \<not> pinky ?fs
        then \<lparr>ctype = PEACE, confidence = 0.85\<rparr>
      else if thumb ?fs \<and> \<not> index ?fs \<and> \<not> middle ?fs \<and> \<not> ring ?fs \<and> \<not> pinky ?fs
        then \<lparr>ctype = THUMBS_UP, confidence = 0.8\<rparr>
      else if \<not> thumb ?fs \<and> index ?fs \<and> \<not> middle ?fs \<and> \<not> ring ?fs \<and> \<not> pinky ?fs
        then \<lparr>ctype = POINTING, confidence = 0.8\<rparr>
      else if index ?fs \<and> \<not> middle ?fs \<and> \<not> ring ?fs \<and> pinky ?fs
        then \<lparr>ctype = ROCK, confidence = 0.8\<rparr>
      else \<lparr>ctype = NONE, confidence = 0.5\<rparr>)"
    unfolding rawClassification_def classifyGesture_def Let_def was
      pinchStartThreshold_def pinchEndThreshold_def by simp
  have n: "?n = (if thumb ?fs then 1 else 0) + (if index ?fs then 1 else 0) +
     (if middle ?fs then 1 else 0) + (if ring ?fs then 1 else 0) + (if pinky ?fs then 1 else 0)"
    by (rule extendedCount_getFingerStates)
  have c0: "?n = length (filter (\<lambda>v. v) [thumb ?fs, index ?fs, middle ?fs, ring ?fs, pinky ?fs])"
    by (simp add: getFingerStates_def Let_def)
  have c1: "?d = distance2D (lms ! 4) (lms ! 8)" by (simp add: getPinchDistance_def)
  have c2: "ctype ?r = FIST \<longleftrightarrow> ?n \<le> 1" unfolding r by simp
  have c3: "ctype ?r = PINCH \<longleftrightarrow> 1 < ?n \<and> ?pinching" unfolding r by auto
  have c4: "ctype ?r = OPEN \<longleftrightarrow> 1 < ?n \<and> \<not> ?pinching \<and> 4 \<le> ?n" unfolding r by auto
  have c5: "ctype ?r = PEACE \<longleftrightarrow>
      1 < ?n \<and> \<not> ?pinching \<and> ?n < 4 \<and> index ?fs \<and> middle ?fs \<and> \<not> ring ?fs \<and> \<not> pinky ?fs"
    unfolding r by auto
  have c6: "ctype ?r = ROCK \<longleftrightarrow>
      1 < ?n \<and> \<not> ?pinching \<and> ?n < 4 \<and> index ?fs \<and> \<not> middle ?fs \<and> \<not> ring ?fs \<and> pinky ?fs"
    unfolding r by auto
  have c7: "ctype ?r \<noteq> THUMBS_UP"
  proof
    assume "ctype ?r = THUMBS_UP"
    then have "1 < ?n \<and> thumb ?fs \<and> \<not> index ?fs \<and> \<not> middle ?fs \<and> \<not> ring ?fs \<and> \<not> pinky ?fs"
      unfolding r by (auto split: if_splits)
    then show False using n by auto
  qed
  have c8: "ctype ?r \<noteq> POINTING"
  proof
    assume "ctype ?r = POINTING"
    then have "1 < ?n \<and> \<not> thumb ?fs \<and> index ?fs \<and> \<not> middle ?fs \<and> \<not> ring ?fs \<and> \<not> pinky ?fs"
      unfolding r by (auto split: if_splits)
    then show False using n by auto
  qed
  have c9: "ctype ?r = NONE \<longleftrightarrow>
      1 < ?n \<and> \<not> ?pinching \<and> ?n < 4 \<and>
      \<not> (index ?fs \<and> middle ?fs \<and> \<not> ring ?fs \<and> \<not> pinky ?fs) \<and>
      \<not> (index ?fs \<and> \<not> middle ?fs \<and> \<not> ring ?fs \<and> pinky ?fs)"
  proof
    assume "ctype ?r = NONE"
    then show "1 < ?n \<and> \<not> ?pinching \<and> ?n < 4 \<and>
      \<not> (index ?fs \<and> middle ?fs \<and> \<not> ring ?fs \<and> \<not> pinky ?fs) \<and>
      \<not> (index ?fs \<and> \<not> middle ?fs \<and> \<not> ring ?fs \<and> pinky ?fs)"
      unfolding r by (auto split: if_splits)
  next
    assume a: "1 < ?n \<and> \<not> ?pinching \<and> ?n < 4 \<and>
      \<not> (index ?fs \<and> middle ?fs \<and> \<not> ring ?fs \<and> \<not> pinky ?fs) \<and>
      \<not> (index ?fs \<and> \<not> middle ?fs \<and> \<not> ring ?fs \<and> pinky ?fs)"
    have t: "\<not> (thumb ?fs \<and> \<not> index ?fs \<and> \<not> middle ?fs \<and> \<not> ring ?fs \<and> \<not> pinky ?fs)"
      using a n by (auto split: if_splits)
    have p: "\<not> (\<not> thumb ?fs \<and> index ?fs \<and> \<not> middle ?fs \<and> \<not> ring ?fs \<and> \<not> pinky ?fs)"
      using a n by (auto split: if_splits)
    show "ctype ?r = NONE" unfolding r using a t p by auto
  qed
  have c10: "prevGestures (fst (recognize rec lms h)) h = Some ?r"
    using prevGestures_recognize[of lms rec h] assms by simp
  show ?thesis unfolding Let_def using c0 c1 c2 c3 c4 c5 c6 c7 c8 c9 c10 by blast
qed

lemma pinchPose_fingers:
  "length pinchPose = 21" "getPinchDistance pinchPose = 0"
  "extendedCount (getFingerStates pinchPose) = 3"
  by (simp_all add: pinchPose_def getPinchDistance_def getFingerStates_def isThumbExtended_def
        isFingerExtended_def distance2D_def Let_def)

theorem raw_classification_witness:
  "length pinchPose = 21 \<and> ctype (rawClassification newRecognizer pinchPose 0) = PINCH"
  using raw_classification[OF pinchPose_fingers(1), of newRecognizer 0]
  by (simp add: Let_def pinchPose_fingers newRecognizer_def)

section \<open>Properties of the landmark smoothing\<close>

lemma smoothLandmarks_other:
  "h' \<noteq> h \<Longrightarrow> prevLandmarks (fst (smoothLandmarks trk lms h)) h' = prevLandmarks trk h'"
  by (simp add: smoothLandmarks_def Let_def split: option.splits)

lemma smoothAll_other:
  "h < i \<or> i + length ls \<le> h \<Longrightarrow>
   prevLandmarks (fst (smoothAll trk i ls w)) h = prevLandmarks trk h"
proof (induction ls arbitrary: trk i)
  case Nil then show ?case by simp
next
  case (Cons lms rest)
  have a: "prevLandmarks (fst (smoothLandmarks trk lms i)) h = prevLandmarks trk h"
    using Cons.prems by (intro smoothLandmarks_other) auto
  have b: "prevLandmarks (fst (smoothAll (fst (smoothLandmarks trk lms i)) (Suc i) rest w)) h =
           prevLandmarks (fst (smoothLandmarks trk lms i)) h"
    using Cons.prems by (intro Cons.IH) auto
  show ?case using a b by (simp add: case_prod_beta)
qed

lemma smoothLandmarks_first:
  "prevLandmarks trk h = None \<Longrightarrow>
   smoothLandmarks trk lms h = (trk\<lparr>prevLandmarks := (prevLandmarks trk)(h \<mapsto> lms)\<rparr>, lms)"
  by (simp add: smoothLandmarks_def)

lemma smoothLandmarks_next:
  assumes "prevLandmarks trk h = Some prev" "length lms \<le> length prev"
  shows "\<exists>smoothed.
           smoothLandmarks trk lms h =
             (trk\<lparr>prevLandmarks := (prevLandmarks trk)(h \<mapsto> smoothed)\<rparr>, smoothed) \<and>
           length smoothed = length lms \<and>
           (\<forall>i < length lms.
              lm_x (smoothed ! i) = lm_x (prev ! i) * (1 - 0.8) + lm_x (lms ! i) * 0.8 \<and>
              lm_y (smoothed ! i) = lm_y (prev ! i) * (1 - 0.8) + lm_y (lms ! i) * 0.8 \<and>
              lm_z (smoothed ! i) = lm_z (prev ! i) * (1 - 0.8) + lm_z (lms ! i) * 0.8)"
  using assms by (simp add: smoothLandmarks_def Let_def smoothingFactor_def)

lemma detectHands_none:
  "detectHands trk (Detected [] w) = (trk\<lparr>lastResult := None, prevLandmarks := Map.empty\<rparr>, None)"
  by (simp add: detectHands_def)

lemma detectHands_absent_slot:
  assumes "0 < length ls" "length ls \<le> h"
  shows "prevLandmarks (fst (detectHands trk (Detected ls w))) h = prevLandmarks trk h"
  using assms smoothAll_other[of h 0 ls trk w] by (simp add: detectHands_def case_prod_beta)

text \<open>
  Claim C6, as the code has it. On the first observation for a slot the smoother
  returns the raw landmarks unchanged and stores them as the slot's history; on a later
  call, with a history of at least as many landmarks, it returns and stores, per
  coordinate, \<open>prev * (1 - 0.8) + raw * 0.8\<close>. A frame in which the detector reports no
  hand at all clears the history of every slot; a frame in which it reports at least
  one hand leaves the history of every slot that has no hand in it as it was.
\<close>

theorem landmark_smoothing:
  "(prevLandmarks trk h = None \<longrightarrow>
      smoothLandmarks trk lms h = (trk\<lparr>prevLandmarks := (prevLandmarks trk)(h \<mapsto> lms)\<rparr>, lms)) \<and>
   (\<forall>prev. prevLandmarks trk h = Some prev \<and> length lms \<le> length prev \<longrightarrow>
      (\<exists>smoothed.
         smoothLandmarks trk lms h =
           (trk\<lparr>prevLandmarks := (prevLandmarks trk)(h \<mapsto> smoothed)\<rparr>, smoothed) \<and>
         length smoothed = length lms \<and>
         (\<forall>i < length lms.
            lm_x (smoothed ! i) = lm_x (prev ! i) * (1 - 0.8) + lm_x (lms ! i) * 0.8 \<and>
            lm_y (smoothed ! i) = lm_y (prev ! i) * (1 - 0.8) + lm_y (lms ! i) * 0.8 \<and>
            lm_z (smoothed ! i) = lm_z (prev ! i) * (1 - 0.8) + lm_z (lms ! i) * 0.8))) \<and>
   prevLandmarks (fst (detectHands trk (Detected [] w))) = Map.empty \<and>
   snd (detectHands trk (Detected [] w)) = None \<and>
   (0 < length ls \<and> length ls \<le> h \<longrightarrow>
      prevLandmarks (fst (detectHands trk (Detected ls w))) h = prevLandmarks trk h)"
  using smoothLandmarks_first[of trk h lms] smoothLandmarks_next[of trk h _ lms]
    detectHands_absent_slot[of ls h trk w]
  by (simp add: detectHands_none)

theorem landmark_smoothing_witness:
  "smoothLandmarks \<lparr>prevLandmarks = [0 \<mapsto> [Landmark 1 1 1]], lastResult = None\<rparr> [Landmark 0 0 0] 0 =
     (\<lparr>prevLandmarks = [0 \<mapsto> [Landmark (1/5) (1/5) (1/5)]], lastResult = None\<rparr>,
      [Landmark (1/5) (1/5) (1/5)])"
proof -
  let ?trk = "\<lparr>prevLandmarks = [0 \<mapsto> [Landmark 1 1 1]], lastResult = None\<rparr>"
  have "\<forall>prev. prevLandmarks ?trk 0 = Some prev \<and> length [Landmark 0 0 0] \<le> length prev \<longrightarrow>
      (\<exists>smoothed.
         smoothLandmarks ?trk [Landmark 0 0 0] 0 =
           (?trk\<lparr>prevLandmarks := (prevLandmarks ?trk)(0 \<mapsto> smoothed)\<rparr>, smoothed) \<and>
         length smoothed = length [Landmark 0 0 0] \<and>
         (\<forall>i < length [Landmark 0 0 0].
            lm_x (smoothed ! i) = lm_x (prev ! i) * (1 - 0.8) + lm_x ([Landmark 0 0 0] ! i) * 0.8 \<and>
            lm_y (smoothed ! i) = lm_y (prev ! i) * (1 - 0.8) + lm_y ([Landmark 0 0 0] ! i) * 0.8 \<and>
            lm_z (smoothed ! i) = lm_z (prev ! i) * (1 - 0.8) + lm_z ([Landmark 0 0 0] ! i) * 0.8))"
    using landmark_smoothing[of ?trk 0 "[Landmark 0 0 0]" None "[]"] by blast
  then obtain smoothed where s:
    "smoothLandmarks ?trk [Landmark 0 0 0] 0 =
           (?trk\<lparr>prevLandmarks := (prevLandmarks ?trk)(0 \<mapsto> smoothed)\<rparr>, smoothed)"
    "length smoothed = 1"
    "lm_x (smoothed ! 0) = 1/5" "lm_y (smoothed ! 0) = 1/5" "lm_z (smoothed ! 0) = 1/5"
    by auto
  have "smoothed = [Landmark (1/5) (1/5) (1/5)]"
    using s(2-5) by (cases smoothed) (auto intro: landmark.expand)
  then show ?thesis using s(1) by simp
qed

text \<open>
  The claim as stated clears a slot's history whenever that slot has no hand. After a
  frame with two hands and a frame with one hand, slot 1 still has its history.
\<close>

theorem history_kept_counterexample:
  "prevLandmarks
     (fst (detectHands
        (fst (detectHands newTracker (Detected [palmUp, palmDown] None)))
        (Detected [palmTurned] None))) 1 = Some palmDown"
proof -
  let ?t1 = "fst (detectHands newTracker (Detected [palmUp, palmDown] None))"
  have "prevLandmarks ?t1 1 = Some palmDown"
    by (simp add: detectHands_def newTracker_def smoothLandmarks_def)
  moreover have "prevLandmarks (fst (detectHands ?t1 (Detected [palmTurned] None))) 1 =
      prevLandmarks ?t1 1"
    by (rule detectHands_absent_slot) simp_all
  ultimately show ?thesis by simp
qed

end
